theory Spec2Isabelle
  imports Main "HOL-Library.Sublist"
begin

chapter \<open>The programs\<close>

section \<open>The C library functions the programs call\<close>

text \<open>
  A C string is modelled by the list of its bytes before the terminating NUL. The
  programs never call \<^verbatim>\<open>setlocale\<close>, so the character classes are those of the "C"
  locale: only the ASCII letters have a case.
\<close>

definition NUL :: char where
  "NUL = CHR 0x00"

definition tolower :: "char \<Rightarrow> char" where
  "tolower c = (let n = of_char c :: nat in if 65 \<le> n \<and> n \<le> 90 then char_of (n + 32) else c)"

definition isspace :: "char \<Rightarrow> bool" where
  "isspace c = (let n = of_char c :: nat in n = 32 \<or> (9 \<le> n \<and> n \<le> 13))"

definition isprint :: "char \<Rightarrow> bool" where
  "isprint c = (let n = of_char c :: nat in 32 \<le> n \<and> n \<le> 126)"

definition isdigit :: "char \<Rightarrow> bool" where
  "isdigit c = (let n = of_char c :: nat in 48 \<le> n \<and> n \<le> 57)"

abbreviation strlen :: "string \<Rightarrow> nat" where
  "strlen s \<equiv> length s"

text \<open>
  The comparison functions return the difference of the first two bytes that differ
  (the end of a string counts as the byte 0), and 0 when there is none.
\<close>

fun strcmp :: "string \<Rightarrow> string \<Rightarrow> int" where
  "strcmp [] [] = 0"
| "strcmp [] (b # s2) = - of_char b"
| "strcmp (a # s1) [] = of_char a"
| "strcmp (a # s1) (b # s2) = (if a = b then strcmp s1 s2 else of_char a - of_char b)"

fun strcasecmp :: "string \<Rightarrow> string \<Rightarrow> int" where
  "strcasecmp [] [] = 0"
| "strcasecmp [] (b # s2) = - of_char (tolower b)"
| "strcasecmp (a # s1) [] = of_char (tolower a)"
| "strcasecmp (a # s1) (b # s2) =
     (if tolower a = tolower b then strcasecmp s1 s2
      else of_char (tolower a) - of_char (tolower b))"

fun strncasecmp :: "string \<Rightarrow> string \<Rightarrow> nat \<Rightarrow> int" where
  "strncasecmp s1 s2 0 = 0"
| "strncasecmp [] [] (Suc n) = 0"
| "strncasecmp [] (b # s2) (Suc n) = - of_char (tolower b)"
| "strncasecmp (a # s1) [] (Suc n) = of_char (tolower a)"
| "strncasecmp (a # s1) (b # s2) (Suc n) =
     (if tolower a = tolower b then strncasecmp s1 s2 n
      else of_char (tolower a) - of_char (tolower b))"

text \<open>Bytes in memory read as a C string: the string ends at the first NUL byte.\<close>

definition c_str :: "string \<Rightarrow> string" where
  "c_str bytes = takeWhile (\<lambda>c. c \<noteq> NUL) bytes"

text \<open>\<^verbatim>\<open>printf("%d", n)\<close> for a number that is not negative.\<close>

definition digit_char :: "nat \<Rightarrow> char" where
  "digit_char d = char_of (48 + d)"

function decimal :: "nat \<Rightarrow> string" where
  "decimal n = (if n < 10 then [digit_char n] else decimal (n div 10) @ [digit_char (n mod 10)])"
  by pat_completeness auto
termination
  by (relation "measure (\<lambda>n. n)") auto

declare decimal.simps [simp del]

section \<open>Exclusive keyboard grab with bounded retry (grab\_keyboard)\<close>

text \<open>
  \<^verbatim>\<open>grab_keyboard\<close> is the same function in winleap.c and in atsw.c (the file
  \<^verbatim>\<open>src/unnamed/part_002\<close>). The \<^verbatim>\<open>main\<close> of grab\_keys.c (\<^verbatim>\<open>src/unnamed/part_000\<close>) holds
  the same loop; it writes the new delay as \<^verbatim>\<open>retry_delay_us *= 1.5\<close>, which multiplies
  in floating point and converts back to \<^verbatim>\<open>int\<close>, dropping the fraction: the same values.
\<close>

text \<open>
  \<^verbatim>\<open>XGrabKeyboard\<close> answers with one of the X11 grab status codes. The two the code
  looks at are \<^verbatim>\<open>GrabSuccess\<close> (0) and \<^verbatim>\<open>AlreadyGrabbed\<close> (1), as in \<^verbatim>\<open>X11/X.h\<close>.
  The X server is the environment: \<open>xgrab i\<close> is the status the \<open>i\<close>-th call (counted
  from 0) returns.
\<close>

definition GrabSuccess :: int where
  "GrabSuccess = 0"

definition AlreadyGrabbed :: int where
  "AlreadyGrabbed = 1"

definition max_retries :: nat where
  "max_retries = 10"

text \<open>
  What one run of \<^verbatim>\<open>grab_keyboard\<close> does: its return value (1 or 0), the number of
  \<^verbatim>\<open>XGrabKeyboard\<close> calls it made, and the arguments of its \<^verbatim>\<open>usleep\<close> calls in
  order (microseconds).
\<close>

record grab_run =
  grabbed :: int
  attempts :: nat
  sleeps :: "int list"

text \<open>
  The \<^verbatim>\<open>for (int i = 0; i < max_retries; i++)\<close> loop, started at \<open>i\<close> with the current
  \<^verbatim>\<open>retry_delay_us\<close>. The delay is a C \<^verbatim>\<open>int\<close> and \<^verbatim>\<open>retry_delay_us * 3 / 2\<close> is integer
  arithmetic: the product is divided by two and the fraction is dropped (the values
  are positive, so C's truncation and \<open>div\<close> agree; they stay far below \<open>2^31\<close>, see
  \<open>grab_keyboard_sleeps_in_int_range\<close>).
\<close>

function grab_keyboard_loop :: "(nat \<Rightarrow> int) \<Rightarrow> nat \<Rightarrow> int \<Rightarrow> int list \<Rightarrow> grab_run" where
  "grab_keyboard_loop xgrab i retry_delay_us slept =
     (if i < max_retries then
        (let grab_result = xgrab i in
           if grab_result = GrabSuccess then
             \<lparr>grabbed = 1, attempts = Suc i, sleeps = slept\<rparr>
           else if grab_result = AlreadyGrabbed \<and> i < max_retries - 1 then
             grab_keyboard_loop xgrab (Suc i) (retry_delay_us * 3 div 2) (slept @ [retry_delay_us])
           else
             \<lparr>grabbed = 0, attempts = Suc i, sleeps = slept\<rparr>)
      else \<lparr>grabbed = 0, attempts = i, sleeps = slept\<rparr>)"
  by pat_completeness auto
termination
  by (relation "measure (\<lambda>(xgrab, i, d, slept). max_retries - i)") auto

definition grab_keyboard :: "(nat \<Rightarrow> int) \<Rightarrow> grab_run" where
  "grab_keyboard xgrab = grab_keyboard_loop xgrab 0 10000 []"

text \<open>The delay before the retry number \<open>k\<close> (counted from 0), as the loop computes it.\<close>

fun retry_delay :: "nat \<Rightarrow> int" where
  "retry_delay 0 = 10000"
| "retry_delay (Suc k) = retry_delay k * 3 div 2"

text \<open>A server that never releases the keyboard: every call answers \<^verbatim>\<open>AlreadyGrabbed\<close>.\<close>

definition xgrab_busy :: "nat \<Rightarrow> int" where
  "xgrab_busy i = AlreadyGrabbed"

text \<open>A server that is busy for the first \<open>k\<close> calls and then answers with \<open>code\<close>.\<close>

definition xgrab_busy_then :: "nat \<Rightarrow> int \<Rightarrow> nat \<Rightarrow> int" where
  "xgrab_busy_then k code i = (if i < k then AlreadyGrabbed else code)"

section \<open>Window discovery (shared by atsw.c, atsw\_manual.c and winleap.c)\<close>

text \<open>
  An X11 \<^verbatim>\<open>Window\<close> is an unsigned resource identifier; the code only stores and
  compares it. \<^verbatim>\<open>None\<close> is the identifier 0.
\<close>

type_synonym Window = nat

definition None_window :: Window where
  "None_window = 0"

text \<open>
  What the X server holds for one client window: its identifier, the bytes of its
  \<^verbatim>\<open>WM_CLASS\<close> property (\<^verbatim>\<open>instance\0class\0\<close>), its name (\<^verbatim>\<open>_NET_WM_NAME\<close>, or else
  \<^verbatim>\<open>WM_NAME\<close>) and its \<^verbatim>\<open>_NET_WM_DESKTOP\<close>; \<open>None\<close> where the property is missing or
  the request fails.
\<close>

record Client =
  client_id :: Window
  client_wm_class :: "string option"
  client_name :: "string option"
  client_desktop :: "int option"

definition MAX_WINDOWS :: nat where
  "MAX_WINDOWS = 256"

definition MAX_APPS :: nat where
  "MAX_APPS = 128"

definition MAX_PREFIX_LEN :: nat where
  "MAX_PREFIX_LEN = 32"

definition MAX_CLASS_LEN :: nat where
  "MAX_CLASS_LEN = 256"

definition MAX_BUFFER_LEN :: nat where
  "MAX_BUFFER_LEN = 64"

definition MAX_TITLE_LEN :: nat where
  "MAX_TITLE_LEN = 512"

text \<open>
  \<^verbatim>\<open>get_wm_class\<close> asks for at most 1024 words (4096 bytes) of the property. It takes
  the second string of the property when it starts inside the \<^verbatim>\<open>nitems\<close> bytes, the
  first one otherwise, cut to \<^verbatim>\<open>bufsize - 1\<close> characters. The result is \<open>None\<close> when
  the function returns 0: no property, or an empty name.
\<close>

definition get_wm_class :: "string option \<Rightarrow> string option" where
  "get_wm_class prop =
     (case prop of
        None \<Rightarrow> None
      | Some bytes \<Rightarrow>
          (let data = take 4096 bytes;
               nitems = length data;
               instance = c_str data;
               class_off = strlen instance + 1;
               buf = take (MAX_CLASS_LEN - 1)
                       (if class_off < nitems then c_str (drop class_off data) else instance)
           in if strlen buf > 0 then Some buf else None))"

definition get_window_title :: "string option \<Rightarrow> string" where
  "get_window_title name =
     (case name of Some s \<Rightarrow> take (MAX_TITLE_LEN - 1) (c_str s) | None \<Rightarrow> ''(untitled)'')"

definition get_window_desktop :: "int option \<Rightarrow> int" where
  "get_window_desktop prop = (case prop of Some desktop \<Rightarrow> desktop | None \<Rightarrow> - 1)"

text \<open>
  The loop of \<^verbatim>\<open>discover_windows\<close> over the client list. A window without a class
  name is skipped, and the loop stops at \<^verbatim>\<open>MAX_WINDOWS\<close> stored windows. The three
  programs differ only in the fields they store: \<open>store\<close> builds the array entry from
  the client and its class name.
\<close>

fun discover_loop :: "(Client \<Rightarrow> string \<Rightarrow> 'w) \<Rightarrow> Client list \<Rightarrow> 'w list \<Rightarrow> 'w list" where
  "discover_loop store [] windows = windows"
| "discover_loop store (c # client_list) windows =
     (if length windows < MAX_WINDOWS then
        (case get_wm_class (client_wm_class c) of
           None \<Rightarrow> discover_loop store client_list windows
         | Some cls \<Rightarrow> discover_loop store client_list (windows @ [store c cls]))
      else windows)"

text \<open>
  \<^verbatim>\<open>discover_windows\<close> reads \<^verbatim>\<open>_NET_CLIENT_LIST\<close> (at most 1024 entries are asked for).
  The argument is \<open>None\<close> when that request fails or gives no data. The result is the
  return value, which is \<^verbatim>\<open>num_windows\<close> (0 on failure), and the array \<^verbatim>\<open>windows\<close>.
\<close>

definition discover_windows :: "(Client \<Rightarrow> string \<Rightarrow> 'w) \<Rightarrow> Client list option \<Rightarrow> int \<times> 'w list" where
  "discover_windows store prop =
     (case prop of
        None \<Rightarrow> (0, [])
      | Some client_list \<Rightarrow>
          (let windows = discover_loop store (take 1024 client_list) [] in
           (int (length windows), windows)))"

section \<open>Cycling through the instances of a marked application (atsw\_manual.c)\<close>

text \<open>atsw\_manual.c is the first program in the file \<^verbatim>\<open>src/unnamed/part_001\<close>.\<close>

text \<open>The \<^verbatim>\<open>WindowInfo\<close> struct of atsw\_manual.c; the other programs extend it.\<close>

record WindowInfo =
  win_id :: Window
  wm_class :: string
  title :: string

text \<open>
  \<^verbatim>\<open>get_active_window\<close>: the argument is what reading \<^verbatim>\<open>_NET_ACTIVE_WINDOW\<close> from
  the root window gave, \<open>None\<close> when the request failed or the property is absent.
\<close>

definition get_active_window :: "Window option \<Rightarrow> Window" where
  "get_active_window prop = (case prop of Some active \<Rightarrow> active | None \<Rightarrow> None_window)"

text \<open>
  The search loop of \<^verbatim>\<open>main\<close>,
  \<^verbatim>\<open>for (i = 0; i < match_count; i++) if (windows[matching_indices[i]].id == active) ...\<close>:
  the position \<open>i\<close> of the first candidate that is the active window, or \<open>-1\<close>.
  The list argument is what is left of \<^verbatim>\<open>matching_indices\<close> from position \<open>i\<close> on.
\<close>

fun find_active_idx :: "'a WindowInfo_scheme list \<Rightarrow> Window \<Rightarrow> nat list \<Rightarrow> nat \<Rightarrow> int" where
  "find_active_idx windows active [] i = - 1"
| "find_active_idx windows active (idx # rest) i =
     (if win_id (windows ! idx) = active then int i
      else find_active_idx windows active rest (Suc i))"

text \<open>
  The choice of \<^verbatim>\<open>target_idx\<close> in \<^verbatim>\<open>main\<close>. \<^verbatim>\<open>matching_indices\<close> holds the
  \<^verbatim>\<open>match_count\<close> indices of the candidate windows in discovery order; \<^verbatim>\<open>main\<close> has
  already left with exit code 1 when there is none, so the list is not empty here.
\<close>

definition choose_target :: "'a WindowInfo_scheme list \<Rightarrow> nat list \<Rightarrow> Window \<Rightarrow> nat" where
  "choose_target windows matching_indices active =
     (let match_count = length matching_indices in
      if match_count = 1 then matching_indices ! 0
      else
        (let active_idx = find_active_idx windows active matching_indices 0 in
         if active_idx \<ge> 0 then
           (let next_idx = (nat active_idx + 1) mod match_count in matching_indices ! next_idx)
         else matching_indices ! 0))"

section \<open>Prefix navigation (atsw.c)\<close>

text \<open>atsw.c is the file \<^verbatim>\<open>src/unnamed/part_002\<close>.\<close>

text \<open>
  The \<^verbatim>\<open>WindowInfo\<close> struct of atsw.c: \<open>wm_class_lower\<close> is the class name in lower
  case (written by \<^verbatim>\<open>discover_windows\<close>) and \<open>win_prefix\<close> is the field \<^verbatim>\<open>prefix\<close>, a
  buffer of \<^verbatim>\<open>MAX_PREFIX_LEN\<close> bytes that \<^verbatim>\<open>discover_windows\<close> leaves empty.
\<close>

record WindowInfo_atsw = WindowInfo +
  wm_class_lower :: string
  win_prefix :: string

text \<open>What \<^verbatim>\<open>discover_windows\<close> of atsw.c stores for a window with the class name \<open>cls\<close>.\<close>

definition store_atsw :: "Client \<Rightarrow> string \<Rightarrow> WindowInfo_atsw" where
  "store_atsw c cls =
     \<lparr>win_id = client_id c, wm_class = cls, title = get_window_title (client_name c),
      wm_class_lower = map tolower cls, win_prefix = []\<rparr>"

subsection \<open>compute\_prefixes\<close>

text \<open>
  The local \<^verbatim>\<open>AppGroup\<close> struct; \<^verbatim>\<open>count\<close> is the length of \<open>window_indices\<close>.
\<close>

record AppGroup =
  class_lower :: string
  window_indices :: "nat list"

abbreviation app_count :: "AppGroup \<Rightarrow> nat" where
  "app_count g \<equiv> length (window_indices g)"

text \<open>
  The inner search of the grouping loop: the first \<open>j\<close> with
  \<^verbatim>\<open>strcmp(apps[j].class_lower, windows[i].wm_class_lower) == 0\<close>.
\<close>

fun find_app :: "AppGroup list \<Rightarrow> string \<Rightarrow> nat option" where
  "find_app [] cls = None"
| "find_app (g # apps) cls =
     (if strcmp (class_lower g) cls = 0 then Some 0 else map_option Suc (find_app apps cls))"

text \<open>
  The grouping loop over the windows from index \<open>i\<close> on. A window whose class is not
  in \<open>apps\<close> opens a new group only while \<^verbatim>\<open>num_apps < MAX_APPS\<close>; otherwise it joins
  no group. (\<^verbatim>\<open>strncpy\<close> copies the whole class name here: \<^verbatim>\<open>discover_windows\<close> keeps it
  shorter than \<^verbatim>\<open>MAX_CLASS_LEN\<close>.)
\<close>

fun group_windows :: "WindowInfo_atsw list \<Rightarrow> nat \<Rightarrow> AppGroup list \<Rightarrow> AppGroup list" where
  "group_windows [] i apps = apps"
| "group_windows (w # rest) i apps =
     (case find_app apps (wm_class_lower w) of
        Some found \<Rightarrow>
          group_windows rest (Suc i)
            (apps[found := (apps ! found)\<lparr>window_indices := window_indices (apps ! found) @ [i]\<rparr>])
      | None \<Rightarrow>
          if length apps < MAX_APPS then
            group_windows rest (Suc i)
              (apps @ [\<lparr>class_lower = wm_class_lower w, window_indices = [i]\<rparr>])
          else group_windows rest (Suc i) apps)"

text \<open>
  The test \<^verbatim>\<open>is_unique\<close> for the group \<open>a\<close> and one prefix length: no other group's
  class name agrees with this one on the first \<open>prefix_len\<close> characters.
\<close>

definition is_unique :: "AppGroup list \<Rightarrow> nat \<Rightarrow> nat \<Rightarrow> bool" where
  "is_unique apps a prefix_len =
     list_all (\<lambda>other. other = a
                \<or> strncasecmp (class_lower (apps ! a)) (class_lower (apps ! other)) prefix_len \<noteq> 0)
       [0..<length apps]"

text \<open>
  The loop \<^verbatim>\<open>for (prefix_len = 1; prefix_len <= app_len; prefix_len++)\<close>, entered at
  \<open>prefix_len\<close>. It leaves with the first unique length, or with \<^verbatim>\<open>app_len + 1\<close> when
  no length up to \<^verbatim>\<open>app_len\<close> is unique.
\<close>

function find_prefix_len :: "AppGroup list \<Rightarrow> nat \<Rightarrow> nat \<Rightarrow> nat" where
  "find_prefix_len apps a prefix_len =
     (if prefix_len \<le> strlen (class_lower (apps ! a)) then
        (if is_unique apps a prefix_len then prefix_len
         else find_prefix_len apps a (Suc prefix_len))
      else prefix_len)"
  by pat_completeness auto
termination
  by (relation "measure (\<lambda>(apps, a, prefix_len). Suc (strlen (class_lower (apps ! a))) - prefix_len)")
    auto

text \<open>
  Writing the sequence of a single-window group,
  \<^verbatim>\<open>strncpy(windows[idx].prefix, app_class, prefix_len); windows[idx].prefix[prefix_len] = '\0'\<close>,
  stays inside the \<^verbatim>\<open>MAX_PREFIX_LEN\<close> bytes of the field only when
  \<^verbatim>\<open>prefix_len < MAX_PREFIX_LEN\<close>. Beyond that the C code writes past the field; the model
  stops with an error there.
\<close>

datatype error = PrefixOverflow

text \<open>
  \<^verbatim>\<open>snprintf(windows[idx].prefix, MAX_PREFIX_LEN, "%.*s%d", prefix_len, app_class, w + 1)\<close>:
  at most \<open>prefix_len\<close> characters of the class name, then the instance number, cut to
  what fits in the field with its terminating NUL.
\<close>

definition snprintf_prefix :: "nat \<Rightarrow> string \<Rightarrow> nat \<Rightarrow> string" where
  "snprintf_prefix prefix_len app_class n =
     take (MAX_PREFIX_LEN - 1) (take prefix_len app_class @ decimal n)"

text \<open>The loop over the windows of a group with several windows, from position \<open>w\<close> on.\<close>

fun assign_numbered ::
  "WindowInfo_atsw list \<Rightarrow> string \<Rightarrow> nat \<Rightarrow> nat list \<Rightarrow> nat \<Rightarrow> WindowInfo_atsw list" where
  "assign_numbered windows app_class prefix_len [] w = windows"
| "assign_numbered windows app_class prefix_len (idx # rest) w =
     assign_numbered
       (windows[idx := (windows ! idx)\<lparr>win_prefix := snprintf_prefix prefix_len app_class (w + 1)\<rparr>])
       app_class prefix_len rest (Suc w)"

text \<open>The body of the loop over the groups, for the group \<open>a\<close>.\<close>

definition assign_prefixes ::
  "AppGroup list \<Rightarrow> nat \<Rightarrow> WindowInfo_atsw list \<Rightarrow> error + WindowInfo_atsw list" where
  "assign_prefixes apps a windows =
     (let app_class = class_lower (apps ! a);
          prefix_len = find_prefix_len apps a 1
      in if app_count (apps ! a) = 1 then
           (let idx = window_indices (apps ! a) ! 0 in
            if prefix_len < MAX_PREFIX_LEN then
              Inr (windows[idx := (windows ! idx)\<lparr>win_prefix := take prefix_len app_class\<rparr>])
            else Inl PrefixOverflow)
         else Inr (assign_numbered windows app_class prefix_len (window_indices (apps ! a)) 0))"

text \<open>The loop \<^verbatim>\<open>for (a = 0; a < num_apps; a++)\<close>, over the groups still to do.\<close>

fun prefix_loop ::
  "AppGroup list \<Rightarrow> nat list \<Rightarrow> WindowInfo_atsw list \<Rightarrow> error + WindowInfo_atsw list" where
  "prefix_loop apps [] windows = Inr windows"
| "prefix_loop apps (a # todo) windows =
     (case assign_prefixes apps a windows of
        Inl e \<Rightarrow> Inl e
      | Inr windows' \<Rightarrow> prefix_loop apps todo windows')"

definition compute_prefixes :: "WindowInfo_atsw list \<Rightarrow> error + WindowInfo_atsw list" where
  "compute_prefixes windows =
     (let apps = group_windows windows 0 [] in prefix_loop apps [0..<length apps] windows)"

subsection \<open>find\_match and the event loop of main\<close>

text \<open>
  The local array \<^verbatim>\<open>matches\<close> of \<^verbatim>\<open>find_match\<close> for a buffer that is not empty: the
  indices \<open>i\<close> with \<^verbatim>\<open>strncasecmp(windows[i].prefix, buffer, buf_len) == 0\<close>, in order.
\<close>

definition matches :: "WindowInfo_atsw list \<Rightarrow> string \<Rightarrow> nat list" where
  "matches windows buffer =
     filter (\<lambda>i. strncasecmp (win_prefix (windows ! i)) buffer (strlen buffer) = 0)
       [0..<length windows]"

text \<open>
  \<^verbatim>\<open>find_match\<close> returns the index of the only match, \<open>-1\<close> for no match and \<open>-2\<close> for
  several, and stores the number of matches in \<^verbatim>\<open>*match_count\<close>. For the empty buffer
  every window counts. The result is the pair of the two.
\<close>

definition find_match :: "WindowInfo_atsw list \<Rightarrow> string \<Rightarrow> int \<times> nat" where
  "find_match windows buffer =
     (if buffer = [] then (- 2, length windows)
      else
        (let count = length (matches windows buffer) in
         if count = 1 then (int (matches windows buffer ! 0), count)
         else if count = 0 then (- 1, count)
         else (- 2, count)))"

text \<open>
  The windows \<^verbatim>\<open>find_match\<close> counts for a buffer: all of them for the empty buffer,
  the array \<^verbatim>\<open>matches\<close> otherwise.
\<close>

definition candidates :: "WindowInfo_atsw list \<Rightarrow> string \<Rightarrow> nat list" where
  "candidates windows buffer =
     (if buffer = [] then [0..<length windows] else matches windows buffer)"

text \<open>
  One X event as the loop of \<^verbatim>\<open>main\<close> sees it: an event that is no key press, the
  keysyms the loop tests for, or any other key with the bytes \<^verbatim>\<open>XLookupString\<close> stored
  in \<^verbatim>\<open>key_buf\<close> (\<^verbatim>\<open>len\<close> is their number, possibly 0).
\<close>

datatype key_event = NotKeyPress | Escape | BackSpace | Return | Key string

text \<open>
  The bytes of \<^verbatim>\<open>buffer[0 .. buf_pos)\<close> are the state of the loop; \<^verbatim>\<open>find_match\<close>
  reads them as a C string.
\<close>

text \<open>
  What one event does: the program ends with an exit code, having activated a window
  or none, or the loop goes on with a buffer.
\<close>

datatype step = Exit int "nat option" | Continue string

fun handle_event :: "WindowInfo_atsw list \<Rightarrow> string \<Rightarrow> key_event \<Rightarrow> step" where
  "handle_event windows buffer NotKeyPress = Continue buffer"
| "handle_event windows buffer Escape = Exit 1 None"
| "handle_event windows buffer BackSpace =
     (if length buffer > 0 then Continue (butlast buffer) else Continue buffer)"
| "handle_event windows buffer Return =
     (if length buffer > 0 then
        (let (match, match_count) = find_match windows (c_str buffer) in
         if match \<ge> 0 then Exit 0 (Some (nat match)) else Continue buffer)
      else Continue buffer)"
| "handle_event windows buffer (Key key_buf) =
     (if length key_buf > 0 \<and> length buffer < MAX_BUFFER_LEN - 1 then
        (let buffer' = buffer @ take (MAX_BUFFER_LEN - 1 - length buffer) (map tolower key_buf);
             (match, match_count) = find_match windows (c_str buffer')
         in if match \<ge> 0 then Exit 0 (Some (nat match)) else Continue buffer')
      else Continue buffer)"

text \<open>
  The \<^verbatim>\<open>while (1)\<close> loop over the events that arrive. When they run out the program
  is still blocked in \<^verbatim>\<open>XNextEvent\<close>: the result is \<open>None\<close>.
\<close>

fun event_loop :: "WindowInfo_atsw list \<Rightarrow> string \<Rightarrow> key_event list \<Rightarrow> (int \<times> nat option) option" where
  "event_loop windows buffer [] = None"
| "event_loop windows buffer (e # events) =
     (case handle_event windows buffer e of
        Exit code activated \<Rightarrow> Some (code, activated)
      | Continue buffer' \<Rightarrow> event_loop windows buffer' events)"

section \<open>The shell variant of the matcher (atsw\_mode.sh)\<close>

text \<open>
  atsw\_mode.sh is the second program in the file \<^verbatim>\<open>src/unnamed/part_001\<close>.
\<close>

text \<open>
  \<^verbatim>\<open>PREFIX_TO_WINDOW\<close> is an associative array from sequence to window identifier; the
  model lists its entries in the order the shell iterates over the keys. The test
  \<^verbatim>\<open>[[ "$pfx" == "$buffer"* ]]\<close> holds when \<^verbatim>\<open>pfx\<close> starts with the buffer.
  \<^verbatim>\<open>check_prefix_match\<close> returns 0 for one match, 1 for several (and for the empty
  buffer) and 2 for none; it sets \<^verbatim>\<open>MATCH_COUNT\<close>, \<^verbatim>\<open>MATCH_RESULT\<close> and
  \<^verbatim>\<open>MATCHING_PREFIXES\<close>.
\<close>

record match_vars =
  status :: nat
  MATCH_COUNT :: nat
  MATCH_RESULT :: "Window option"
  MATCHING_PREFIXES :: "string list"

definition sh_matches :: "(string \<times> Window) list \<Rightarrow> string \<Rightarrow> string list" where
  "sh_matches PREFIX_TO_WINDOW buffer = filter (\<lambda>pfx. prefix buffer pfx) (map fst PREFIX_TO_WINDOW)"

definition check_prefix_match :: "(string \<times> Window) list \<Rightarrow> string \<Rightarrow> match_vars" where
  "check_prefix_match PREFIX_TO_WINDOW buffer =
     (if buffer = [] then
        \<lparr>status = 1, MATCH_COUNT = length PREFIX_TO_WINDOW, MATCH_RESULT = None,
         MATCHING_PREFIXES = []\<rparr>
      else
        (let ms = sh_matches PREFIX_TO_WINDOW buffer in
         if length ms = 0 then
           \<lparr>status = 2, MATCH_COUNT = 0, MATCH_RESULT = None, MATCHING_PREFIXES = []\<rparr>
         else if length ms = 1 then
           \<lparr>status = 0, MATCH_COUNT = 1, MATCH_RESULT = map_of PREFIX_TO_WINDOW (ms ! 0),
            MATCHING_PREFIXES = ms\<rparr>
         else
           \<lparr>status = 1, MATCH_COUNT = length ms, MATCH_RESULT = None, MATCHING_PREFIXES = ms\<rparr>))"

text \<open>The sequences \<^verbatim>\<open>check_prefix_match\<close> counts for a buffer.\<close>

definition sh_candidates :: "(string \<times> Window) list \<Rightarrow> string \<Rightarrow> string list" where
  "sh_candidates PREFIX_TO_WINDOW buffer =
     (if buffer = [] then map fst PREFIX_TO_WINDOW else sh_matches PREFIX_TO_WINDOW buffer)"

section \<open>Notions used in the statements and proofs about compute\_prefixes\<close>

text \<open>
  The invariant of the grouping loop after the windows \<open>0 .. n - 1\<close>: every group has
  at least one window, no window index is listed twice (in one group or in two), every
  index is below \<open>n\<close>, and \<^verbatim>\<open>strcmp\<close> tells the class name of a later group from that of
  every earlier one.
\<close>

definition groups_ok :: "AppGroup list \<Rightarrow> nat \<Rightarrow> bool" where
  "groups_ok apps n \<longleftrightarrow>
     (\<forall>a<length apps. window_indices (apps ! a) \<noteq> [] \<and> distinct (window_indices (apps ! a))
        \<and> (\<forall>i\<in>set (window_indices (apps ! a)). i < n))
   \<and> (\<forall>a<length apps. \<forall>b<length apps. a \<noteq> b \<longrightarrow>
        set (window_indices (apps ! a)) \<inter> set (window_indices (apps ! b)) = {})
   \<and> (\<forall>a<length apps. \<forall>b<length apps. a < b \<longrightarrow>
        strcmp (class_lower (apps ! a)) (class_lower (apps ! b)) \<noteq> 0)"

text \<open>
  A second invariant of the grouping loop after the windows \<open>0 .. n - 1\<close>: the windows
  of a group have the class name of the group by \<^verbatim>\<open>strcmp\<close>; a window whose class name
  the search finds in the table is in the group found; and a window whose class name
  is not in the table was left out when the table was full.
\<close>

definition groups_cover :: "AppGroup list \<Rightarrow> WindowInfo_atsw list \<Rightarrow> nat \<Rightarrow> bool" where
  "groups_cover apps windows n \<longleftrightarrow>
     (\<forall>a<length apps. \<forall>i\<in>set (window_indices (apps ! a)).
        strcmp (class_lower (apps ! a)) (wm_class_lower (windows ! i)) = 0)
   \<and> (\<forall>i<n. \<forall>a. find_app apps (wm_class_lower (windows ! i)) = Some a
        \<longrightarrow> i \<in> set (window_indices (apps ! a)))
   \<and> (\<forall>i<n. find_app apps (wm_class_lower (windows ! i)) = None \<longrightarrow> MAX_APPS \<le> length apps)"

text \<open>
  The window \<open>i\<close> is single when it is the only window of its application: no other
  window has its class name (in lower case).
\<close>

definition single_instance :: "WindowInfo_atsw list \<Rightarrow> nat \<Rightarrow> bool" where
  "single_instance windows i =
     list_all (\<lambda>k. k = i \<or> wm_class_lower (windows ! k) \<noteq> wm_class_lower (windows ! i))
       [0..<length windows]"

text \<open>
  The class name of the window \<open>i\<close> has a group when the search of the grouping loop
  finds it among the groups that \<^verbatim>\<open>compute_prefixes\<close> has formed.
\<close>

definition has_group :: "WindowInfo_atsw list \<Rightarrow> nat \<Rightarrow> bool" where
  "has_group windows i \<longleftrightarrow>
     find_app (group_windows windows 0 []) (wm_class_lower (windows ! i)) \<noteq> None"

text \<open>
  The sequence \<^verbatim>\<open>compute_prefixes\<close> writes for the window at position \<open>k\<close> of the
  group \<open>a\<close>, read off the two branches of its assignment step.
\<close>

definition sequence_of :: "AppGroup list \<Rightarrow> nat \<Rightarrow> nat \<Rightarrow> string" where
  "sequence_of apps a k =
     (if app_count (apps ! a) = 1 then
        take (find_prefix_len apps a 1) (class_lower (apps ! a))
      else snprintf_prefix (find_prefix_len apps a 1) (class_lower (apps ! a)) (k + 1))"

section \<open>Marks with explicit instance selection (winleap.c)\<close>

definition MAX_LINE_LEN :: nat where
  "MAX_LINE_LEN = 512"

definition MAX_MARKS :: nat where
  "MAX_MARKS = 100"

definition MAX_INSTANCE_KEYS :: nat where
  "MAX_INSTANCE_KEYS = 128"

definition DEFAULT_INSTANCE_KEYS :: string where
  "DEFAULT_INSTANCE_KEYS = ''qwertyuiopasdfghjklzxcvbnm1234567890''"

definition INT_MAX :: int where
  "INT_MAX = 2 ^ 31 - 1"

definition LONG_MAX :: int where
  "LONG_MAX = 2 ^ 63 - 1"

definition LONG_MIN :: int where
  "LONG_MIN = - (2 ^ 63)"

record WindowInfo_winleap = WindowInfo +
  desktop :: int

record MarkMapping =
  number :: int
  mark_class :: string

text \<open>
  The \<^verbatim>\<open>Config\<close> struct; \<^verbatim>\<open>num_marks\<close> is the length of \<open>marks\<close>, and \<open>mark_class\<close> is
  the field \<^verbatim>\<open>wm_class\<close> of \<^verbatim>\<open>MarkMapping\<close>.
\<close>

record Config =
  marks :: "MarkMapping list"
  instance_keys :: string
  debug :: int

subsection \<open>Reading the configuration\<close>

text \<open>
  \<^verbatim>\<open>trim\<close> skips the white space at the start and then cuts the white space at the
  end, never going back beyond the first character kept.
\<close>

definition trim :: "string \<Rightarrow> string" where
  "trim s = (case dropWhile isspace s of
               [] \<Rightarrow> []
             | c # rest \<Rightarrow> c # rev (dropWhile isspace (rev rest)))"

definition parse_bool :: "string \<Rightarrow> int option" where
  "parse_bool v =
     (if strcasecmp v ''true'' = 0 \<or> strcasecmp v ''yes'' = 0 \<or> strcmp v ''1'' = 0 then Some 1
      else if strcasecmp v ''false'' = 0 \<or> strcasecmp v ''no'' = 0 \<or> strcmp v ''0'' = 0 then Some 0
      else None)"

text \<open>
  The loop of \<^verbatim>\<open>parse_instance_keys\<close> over the rest of the value, with the keys stored
  so far (\<^verbatim>\<open>seen[key]\<close> is set exactly for them). \<open>None\<close> is the return value 0.
\<close>

fun parse_instance_keys_loop :: "string \<Rightarrow> string \<Rightarrow> nat \<Rightarrow> string option" where
  "parse_instance_keys_loop [] out out_size = (if out = [] then None else Some out)"
| "parse_instance_keys_loop (ch # rest) out out_size =
     (if isspace ch then parse_instance_keys_loop rest out out_size
      else if \<not> isprint ch then parse_instance_keys_loop rest out out_size
      else
        (let normalized = tolower ch in
         if normalized \<in> set out then None
         else if length out \<ge> out_size - 1 then None
         else parse_instance_keys_loop rest (out @ [normalized]) out_size))"

definition parse_instance_keys :: "string \<Rightarrow> nat \<Rightarrow> string option" where
  "parse_instance_keys raw_value out_size =
     (if out_size < 2 then None else parse_instance_keys_loop raw_value [] out_size)"

text \<open>
  \<^verbatim>\<open>strtol(s, &endptr, 10)\<close>: white space, an optional sign, then decimal digits.
  \<open>None\<close> stands for no conversion (\<^verbatim>\<open>endptr == s\<close>); otherwise the result is the
  value, kept within the range of \<^verbatim>\<open>long\<close>, and the rest of the string at \<^verbatim>\<open>endptr\<close>.
\<close>

definition digit_value :: "char \<Rightarrow> int" where
  "digit_value c = of_char c - 48"

definition strtol :: "string \<Rightarrow> (int \<times> string) option" where
  "strtol s =
     (let s1 = dropWhile isspace s;
          negative = (s1 \<noteq> [] \<and> hd s1 = CHR ''-'');
          s2 = (if s1 \<noteq> [] \<and> (hd s1 = CHR ''-'' \<or> hd s1 = CHR ''+'') then tl s1 else s1);
          digits = takeWhile isdigit s2;
          magnitude = foldl (\<lambda>acc d. acc * 10 + digit_value d) 0 digits;
          v = (if negative then - magnitude else magnitude)
      in if digits = [] then None
         else Some (max LONG_MIN (min LONG_MAX v), dropWhile isdigit s2))"

text \<open>
  The test on a mark line's key: the number when the whole key converts to one that
  is positive and at most \<^verbatim>\<open>INT_MAX\<close>, \<open>None\<close> when the line is skipped.
\<close>

definition mark_number :: "string \<Rightarrow> int option" where
  "mark_number key =
     (case strtol key of
        None \<Rightarrow> None
      | Some (num, endptr) \<Rightarrow>
          if endptr \<noteq> [] \<or> num \<le> 0 \<or> num > INT_MAX then None else Some num)"

text \<open>
  \<^verbatim>\<open>fgets(line, sizeof(line), f)\<close> on the bytes of the file that are still unread. It
  reads at most \<^verbatim>\<open>sizeof(line) - 1\<close> bytes and stops after a newline; the result is the
  bytes stored in \<^verbatim>\<open>line\<close> and the bytes left in the file, or \<open>None\<close> (the null pointer)
  at the end of the file. \<open>fgets_chars n\<close> reads at most \<open>n\<close> bytes.
\<close>

fun fgets_chars :: "nat \<Rightarrow> string \<Rightarrow> string \<times> string" where
  "fgets_chars 0 stream = ([], stream)"
| "fgets_chars (Suc n) [] = ([], [])"
| "fgets_chars (Suc n) (c # stream) =
     (if c = CHR 0x0A then ([c], stream)
      else (let (line, rest) = fgets_chars n stream in (c # line, rest)))"

definition fgets :: "nat \<Rightarrow> string \<Rightarrow> (string \<times> string) option" where
  "fgets n stream = (if stream = [] then None else Some (fgets_chars (n - 1) stream))"

text \<open>
  The pieces that successive calls \<^verbatim>\<open>fgets(line, sizeof(line), f)\<close> deliver until the
  end of the file: a line of the file with its newline when that fits in
  \<^verbatim>\<open>MAX_LINE_LEN - 1\<close> bytes, and the line in pieces of that length otherwise.
\<close>

function fgets_lines :: "string \<Rightarrow> string list" where
  "fgets_lines stream =
     (case fgets MAX_LINE_LEN stream of
        None \<Rightarrow> []
      | Some (line, rest) \<Rightarrow> line # fgets_lines rest)"
  by pat_completeness auto
termination
proof (relation "measure length")
  show "wf (measure length)" by simp
next
  fix stream :: string and x2 line rest
  assume f: "fgets MAX_LINE_LEN stream = Some x2" and x: "(line, rest) = x2"
  have shorter: "length r < length s" if "fgets_chars (Suc n) s = (l, r)" "s \<noteq> []" for n s l r
    using that
  proof (induction n arbitrary: s l r)
    case 0
    then show ?case by (cases s) (auto split: if_splits)
  next
    case (Suc n)
    then obtain c s' where s: "s = c # s'" by (cases s) auto
    show ?case
    proof (cases "c = CHR 0x0A \<or> s' = []")
      case True
      then show ?thesis using Suc.prems s by (auto split: if_splits prod.splits)
    next
      case False
      obtain l' r' where lr: "fgets_chars (Suc n) s' = (l', r')" by (cases "fgets_chars (Suc n) s'")
      then have "length r' < length s'" using False by (intro Suc.IH) auto
      moreover have "r = r'" using Suc.prems(1) s False lr by simp
      ultimately show ?thesis using s by simp
    qed
  qed
  from f x have "stream \<noteq> []" and "fgets_chars (MAX_LINE_LEN - 1) stream = (line, rest)"
    by (auto simp: fgets_def split: if_splits)
  then have "length rest < length stream"
    using shorter [of 510 stream line rest] by (simp add: MAX_LINE_LEN_def)
  then show "(rest, stream) \<in> measure length" by simp
qed

declare fgets_lines.simps [simp del]

text \<open>
  The first part of the loop body, on the C string in \<^verbatim>\<open>line\<close>: the line without its
  newline is trimmed; blank lines, comments, lines without \<^verbatim>\<open>=\<close> and lines with an
  empty key are skipped (\<open>None\<close>); otherwise the line splits at the first \<^verbatim>\<open>=\<close> into the
  trimmed key and value.
\<close>

definition split_line :: "string \<Rightarrow> (string \<times> string) option" where
  "split_line line =
     (let p = trim (takeWhile (\<lambda>c. c \<noteq> CHR 0x0A) (c_str line)) in
      if p = [] \<or> hd p = CHR ''#'' then None
      else if CHR ''='' \<notin> set p then None
      else
        (let key = trim (takeWhile (\<lambda>c. c \<noteq> CHR ''='') p);
             val = trim (tl (dropWhile (\<lambda>c. c \<noteq> CHR ''='') p))
         in if key = [] then None else Some (key, val)))"

text \<open>
  The rest of the loop body for a key and a value. \<open>None\<close> is \<^verbatim>\<open>return 0\<close>: a bad
  value of \<^verbatim>\<open>instance_keys\<close> or \<^verbatim>\<open>debug\<close>. A mark line with a bad number or an empty
  value takes the \<^verbatim>\<open>continue\<close> and leaves the configuration as it is.
\<close>

definition apply_setting :: "Config \<Rightarrow> string \<Rightarrow> string \<Rightarrow> Config option" where
  "apply_setting config key val =
     (if strcasecmp key ''instance_keys'' = 0 then
        (case parse_instance_keys val MAX_INSTANCE_KEYS of
           None \<Rightarrow> None
         | Some keys \<Rightarrow> Some (config\<lparr>instance_keys := keys\<rparr>))
      else if strcasecmp key ''debug'' = 0 then
        (case parse_bool val of
           None \<Rightarrow> None
         | Some parsed_debug \<Rightarrow> Some (config\<lparr>debug := parsed_debug\<rparr>))
      else
        (case mark_number key of
           None \<Rightarrow> Some config
         | Some num \<Rightarrow>
             if val = [] then Some config
             else Some (config\<lparr>marks := marks config
                          @ [\<lparr>number = num, mark_class = take (MAX_CLASS_LEN - 1) val\<rparr>]\<rparr>)))"

text \<open>
  The loop \<^verbatim>\<open>while (fgets(line, sizeof(line), f) && config->num_marks < MAX_MARKS)\<close>
  over the pieces \<^verbatim>\<open>fgets\<close> still has to deliver.
\<close>

fun read_config_lines :: "Config \<Rightarrow> string list \<Rightarrow> Config option" where
  "read_config_lines config [] = Some config"
| "read_config_lines config (line # lines) =
     (if length (marks config) < MAX_MARKS then
        (case split_line line of
           None \<Rightarrow> read_config_lines config lines
         | Some (key, val) \<Rightarrow>
             (case apply_setting config key val of
                None \<Rightarrow> None
              | Some config' \<Rightarrow> read_config_lines config' lines))
      else Some config)"

text \<open>
  \<^verbatim>\<open>read_config_file\<close>. The argument is \<open>None\<close> when \<^verbatim>\<open>fopen\<close> fails and otherwise the
  bytes of the file. The result is \<open>None\<close> when the function returns 0, which it also
  does when no mark was loaded.
\<close>

definition read_config_file :: "string option \<Rightarrow> Config option" where
  "read_config_file file =
     (case file of
        None \<Rightarrow> None
      | Some contents \<Rightarrow>
          (case read_config_lines
                  \<lparr>marks = [], instance_keys = take (MAX_INSTANCE_KEYS - 1) DEFAULT_INSTANCE_KEYS,
                   debug = 0\<rparr> (fgets_lines contents) of
             None \<Rightarrow> None
           | Some config \<Rightarrow> if length (marks config) > 0 then Some config else None))"

text \<open>
  A piece that \<^verbatim>\<open>fgets\<close> delivers is a valid mark line when the loop body reaches the
  assignment to \<^verbatim>\<open>config->marks\<close> for it: it splits into a key and a value, the key is
  neither \<^verbatim>\<open>instance_keys\<close> nor \<^verbatim>\<open>debug\<close> and passes the test on the mark number, and
  the value is not empty.
\<close>

definition loads_mark :: "string \<Rightarrow> bool" where
  "loads_mark line =
     (case split_line line of
        None \<Rightarrow> False
      | Some (key, val) \<Rightarrow>
          strcasecmp key ''instance_keys'' \<noteq> 0 \<and> strcasecmp key ''debug'' \<noteq> 0
          \<and> mark_number key \<noteq> None \<and> val \<noteq> [])"

fun find_wmclass_for_mark_in :: "MarkMapping list \<Rightarrow> int \<Rightarrow> string option" where
  "find_wmclass_for_mark_in [] mark_num = None"
| "find_wmclass_for_mark_in (m # ms) mark_num =
     (if number m = mark_num then Some (mark_class m) else find_wmclass_for_mark_in ms mark_num)"

definition find_wmclass_for_mark :: "Config \<Rightarrow> int \<Rightarrow> string option" where
  "find_wmclass_for_mark config mark_num = find_wmclass_for_mark_in (marks config) mark_num"

subsection \<open>Finding the windows of the mark and choosing one\<close>

definition store_winleap :: "Client \<Rightarrow> string \<Rightarrow> WindowInfo_winleap" where
  "store_winleap c cls =
     \<lparr>win_id = client_id c, wm_class = cls, title = get_window_title (client_name c),
      desktop = get_window_desktop (client_desktop c)\<rparr>"

definition get_current_desktop :: "int option \<Rightarrow> int" where
  "get_current_desktop prop = (case prop of Some d \<Rightarrow> d | None \<Rightarrow> - 1)"

text \<open>
  The loop of \<^verbatim>\<open>find_windows_by_class_and_scope\<close> from window \<open>i\<close> on, with the indices
  found so far.
\<close>

fun find_windows_loop ::
  "WindowInfo_winleap list \<Rightarrow> string \<Rightarrow> bool \<Rightarrow> int \<Rightarrow> nat \<Rightarrow> nat \<Rightarrow> nat list \<Rightarrow> nat list" where
  "find_windows_loop [] target_class current_workspace_only current_desktop max_indices i indices
     = indices"
| "find_windows_loop (w # rest) target_class current_workspace_only current_desktop max_indices i indices =
     (if length indices < max_indices then
        (if strcasecmp (wm_class w) target_class \<noteq> 0 then
           find_windows_loop rest target_class current_workspace_only current_desktop max_indices
             (Suc i) indices
         else if current_workspace_only \<and> (current_desktop < 0 \<or> desktop w \<noteq> current_desktop) then
           find_windows_loop rest target_class current_workspace_only current_desktop max_indices
             (Suc i) indices
         else
           find_windows_loop rest target_class current_workspace_only current_desktop max_indices
             (Suc i) (indices @ [i]))
      else indices)"

definition find_windows_by_class_and_scope ::
  "WindowInfo_winleap list \<Rightarrow> string \<Rightarrow> bool \<Rightarrow> int \<Rightarrow> nat \<Rightarrow> nat list" where
  "find_windows_by_class_and_scope windows target_class current_workspace_only current_desktop
       max_indices =
     find_windows_loop windows target_class current_workspace_only current_desktop max_indices 0 []"

text \<open>What the program writes to \<^verbatim>\<open>stderr\<close>, with the values it prints.\<close>

datatype message =
    InvalidMarkNumber
  | FailedToReadConfig
  | NoMappingFound int
  | CannotOpenDisplay
  | FailedToDiscoverWindows
  | NoWindowsFound string
  | TooManyWindows nat nat
  | FailedToGrabKeyboard

text \<open>
  The bytes \<^verbatim>\<open>XLookupString\<close> gives for an event of the selection loop, which tests
  for Escape only: Backspace and Enter are keys with a control character as text.
\<close>

fun key_text :: "key_event \<Rightarrow> string" where
  "key_text (Key key_buf) = key_buf"
| "key_text BackSpace = [CHR 0x08]"
| "key_text Return = [CHR 0x0D]"
| "key_text e = []"

text \<open>
  The search \<^verbatim>\<open>for (i = 0; i < match_count; i++) if (typed == config->instance_keys[i])\<close>
  over the selector keys and the candidates they are paired with.
\<close>

fun find_selector :: "string \<Rightarrow> nat list \<Rightarrow> char \<Rightarrow> nat option" where
  "find_selector (k # keys) (idx # matching_indices) typed =
     (if typed = k then Some idx else find_selector keys matching_indices typed)"
| "find_selector keys matching_indices typed = None"

text \<open>
  The \<^verbatim>\<open>while (1)\<close> loop of \<^verbatim>\<open>select_instance_interactively\<close> over the events that
  arrive: \<open>-1\<close> on Escape, the window index on a selector key; \<open>None\<close> when the events
  run out and the program is still waiting.
\<close>

fun select_loop :: "string \<Rightarrow> nat list \<Rightarrow> key_event list \<Rightarrow> int option" where
  "select_loop keys matching_indices [] = None"
| "select_loop keys matching_indices (NotKeyPress # events) =
     select_loop keys matching_indices events"
| "select_loop keys matching_indices (Escape # events) = Some (- 1)"
| "select_loop keys matching_indices (e # events) =
     (if length (key_text e) \<le> 0 then select_loop keys matching_indices events
      else
        (case find_selector keys matching_indices (tolower (hd (key_text e))) of
           Some selected \<Rightarrow> Some (int selected)
         | None \<Rightarrow> select_loop keys matching_indices events))"

text \<open>
  The outside world of one run: the configuration file, whether the display opens,
  the client list and the current desktop on the root window, the answers of
  \<^verbatim>\<open>XGrabKeyboard\<close>, and the events that arrive.
\<close>

record Env =
  config_file :: "string option"
  display_opens :: bool
  net_client_list :: "Client list option"
  net_current_desktop :: "int option"
  grab_answers :: "nat \<Rightarrow> int"
  key_events :: "key_event list"

text \<open>
  \<^verbatim>\<open>select_instance_interactively\<close> returns \<open>-2\<close> on an error, \<open>-1\<close> when the user
  cancels and the chosen window index otherwise. The result also holds the messages
  written and the number of \<^verbatim>\<open>XGrabKeyboard\<close> calls made; it is \<open>None\<close> while the
  program waits for a key that never comes.
\<close>

definition select_instance_interactively ::
  "Config \<Rightarrow> nat list \<Rightarrow> Env \<Rightarrow> (int \<times> message list \<times> nat) option" where
  "select_instance_interactively config matching_indices env =
     (let match_count = length matching_indices in
      if match_count \<le> 0 then Some (- 2, [], 0)
      else
        (let key_count = strlen (instance_keys config) in
         if match_count > key_count then Some (- 2, [TooManyWindows match_count key_count], 0)
         else
           (let g = grab_keyboard (grab_answers env) in
            if grabbed g = 0 then Some (- 2, [FailedToGrabKeyboard], attempts g)
            else
              (case select_loop (instance_keys config) matching_indices (key_events env) of
                 None \<Rightarrow> None
               | Some r \<Rightarrow> Some (r, [], attempts g)))))"

text \<open>
  How a run ends: the exit code, the index of the window given to
  \<^verbatim>\<open>activate_window\<close> if any, the messages on \<^verbatim>\<open>stderr\<close>, and the number of
  \<^verbatim>\<open>XGrabKeyboard\<close> calls.
\<close>

record outcome =
  exit_code :: int
  activated :: "nat option"
  stderr :: "message list"
  grab_calls :: nat

text \<open>
  \<^verbatim>\<open>main\<close> of winleap.c after the command line is read: \<open>mark_num\<close> is
  \<^verbatim>\<open>atoi(mark_arg)\<close>. Writing the debug log changes nothing here and is left out.
\<close>

definition main_winleap :: "Env \<Rightarrow> bool \<Rightarrow> int \<Rightarrow> outcome option" where
  "main_winleap env current_workspace_only mark_num =
     (if mark_num \<le> 0 then
        Some \<lparr>exit_code = 1, activated = None, stderr = [InvalidMarkNumber], grab_calls = 0\<rparr>
      else
        (case read_config_file (config_file env) of
           None \<Rightarrow>
             Some \<lparr>exit_code = 1, activated = None, stderr = [FailedToReadConfig], grab_calls = 0\<rparr>
         | Some config \<Rightarrow>
             (case find_wmclass_for_mark config mark_num of
                None \<Rightarrow>
                  Some \<lparr>exit_code = 1, activated = None, stderr = [NoMappingFound mark_num],
                        grab_calls = 0\<rparr>
              | Some target_class \<Rightarrow>
                  if \<not> display_opens env then
                    Some \<lparr>exit_code = 2, activated = None, stderr = [CannotOpenDisplay],
                          grab_calls = 0\<rparr>
                  else
                    (let (n, windows) = discover_windows store_winleap (net_client_list env) in
                     if n = 0 then
                       Some \<lparr>exit_code = 2, activated = None, stderr = [FailedToDiscoverWindows],
                             grab_calls = 0\<rparr>
                     else
                       (let current_desktop =
                              (if current_workspace_only
                               then get_current_desktop (net_current_desktop env) else - 1);
                            matching_indices =
                              find_windows_by_class_and_scope windows target_class
                                current_workspace_only current_desktop MAX_WINDOWS;
                            match_count = length matching_indices
                        in if match_count = 0 then
                             Some \<lparr>exit_code = 1, activated = None,
                                   stderr = [NoWindowsFound target_class], grab_calls = 0\<rparr>
                           else if match_count = 1 then
                             Some \<lparr>exit_code = 0, activated = Some (matching_indices ! 0),
                                   stderr = [], grab_calls = 0\<rparr>
                           else
                             (case select_instance_interactively config matching_indices env of
                                None \<Rightarrow> None
                              | Some (target_idx, msgs, calls) \<Rightarrow>
                                  if target_idx = - 1 then
                                    Some \<lparr>exit_code = 1, activated = None, stderr = msgs,
                                          grab_calls = calls\<rparr>
                                  else if target_idx < 0 then
                                    Some \<lparr>exit_code = 2, activated = None, stderr = msgs,
                                          grab_calls = calls\<rparr>
                                  else
                                    Some \<lparr>exit_code = 0, activated = Some (nat target_idx),
                                          stderr = msgs, grab_calls = calls\<rparr>))))))"

chapter \<open>Properties\<close>

section \<open>The keyboard grab\<close>

declare grab_keyboard_loop.simps [simp del]

lemma grab_codes_distinct: "GrabSuccess \<noteq> AlreadyGrabbed"
  by (simp add: GrabSuccess_def AlreadyGrabbed_def)

lemma grab_loop_success:
  "i < max_retries \<Longrightarrow> xgrab i = GrabSuccess \<Longrightarrow>
   grab_keyboard_loop xgrab i d slept = \<lparr>grabbed = 1, attempts = Suc i, sleeps = slept\<rparr>"
  by (subst grab_keyboard_loop.simps) simp

lemma grab_loop_retry:
  "i < max_retries - 1 \<Longrightarrow> xgrab i = AlreadyGrabbed \<Longrightarrow>
   grab_keyboard_loop xgrab i d slept
     = grab_keyboard_loop xgrab (Suc i) (d * 3 div 2) (slept @ [d])"
  by (subst grab_keyboard_loop.simps) (simp add: GrabSuccess_def AlreadyGrabbed_def)

lemma grab_loop_give_up:
  "i < max_retries \<Longrightarrow> xgrab i \<noteq> GrabSuccess \<Longrightarrow>
   xgrab i \<noteq> AlreadyGrabbed \<or> \<not> i < max_retries - 1 \<Longrightarrow>
   grab_keyboard_loop xgrab i d slept = \<lparr>grabbed = 0, attempts = Suc i, sleeps = slept\<rparr>"
  by (subst grab_keyboard_loop.simps) auto

text \<open>
  The loop invariant: entered at attempt \<open>i\<close> with the delay \<open>retry_delay i\<close> and the
  delays \<open>retry_delay 0 .. retry_delay (i - 1)\<close> already slept, the loop ends after
  \<open>n\<close> calls in all, where every call before the last answered \<^verbatim>\<open>AlreadyGrabbed\<close>.
\<close>

lemma grab_loop_invariant:
  assumes "i < max_retries"
  shows "let r = grab_keyboard_loop xgrab i (retry_delay i) (map retry_delay [0..<i]);
             n = attempts r
         in i < n \<and> n \<le> max_retries
          \<and> sleeps r = map retry_delay [0..<n - 1]
          \<and> (\<forall>j. i \<le> j \<and> j < n - 1 \<longrightarrow> xgrab j = AlreadyGrabbed)
          \<and> (n < max_retries \<longrightarrow> xgrab (n - 1) \<noteq> AlreadyGrabbed)
          \<and> grabbed r = (if xgrab (n - 1) = GrabSuccess then 1 else 0)"
  using assms
proof (induction "max_retries - i" arbitrary: i)
  case 0
  then show ?case by simp
next
  case (Suc k)
  consider (ok) "xgrab i = GrabSuccess"
    | (retry) "xgrab i = AlreadyGrabbed" "i < max_retries - 1"
    | (stop) "xgrab i \<noteq> GrabSuccess" "xgrab i \<noteq> AlreadyGrabbed \<or> \<not> i < max_retries - 1"
    by (auto simp: GrabSuccess_def AlreadyGrabbed_def)
  then show ?case
  proof cases
    case ok
    with Suc.prems show ?thesis
      by (simp add: grab_loop_success Let_def grab_codes_distinct)
  next
    case retry
    have k: "k = max_retries - Suc i" using Suc.hyps(2) by simp
    have lt: "Suc i < max_retries" using retry(2) by simp
    have step: "grab_keyboard_loop xgrab i (retry_delay i) (map retry_delay [0..<i])
        = grab_keyboard_loop xgrab (Suc i) (retry_delay (Suc i)) (map retry_delay [0..<Suc i])"
      using retry by (simp add: grab_loop_retry)
    define r where
      "r = grab_keyboard_loop xgrab (Suc i) (retry_delay (Suc i)) (map retry_delay [0..<Suc i])"
    define n where "n = attempts r"
    from Suc.hyps(1) [OF k lt]
    have ih: "Suc i < n \<and> n \<le> max_retries
          \<and> sleeps r = map retry_delay [0..<n - 1]
          \<and> (\<forall>j. Suc i \<le> j \<and> j < n - 1 \<longrightarrow> xgrab j = AlreadyGrabbed)
          \<and> (n < max_retries \<longrightarrow> xgrab (n - 1) \<noteq> AlreadyGrabbed)
          \<and> grabbed r = (if xgrab (n - 1) = GrabSuccess then 1 else 0)"
      unfolding Let_def r_def [symmetric] n_def [symmetric] .
    have busy: "xgrab j = AlreadyGrabbed" if "i \<le> j \<and> j < n - 1" for j
    proof (cases "j = i")
      case True
      then show ?thesis using retry(1) by simp
    next
      case False
      then have "Suc i \<le> j \<and> j < n - 1" using that by simp
      then show ?thesis using ih by blast
    qed
    have "i < n" using ih by simp
    with ih busy show ?thesis
      unfolding step Let_def r_def [symmetric] n_def [symmetric] by blast
  next
    case stop
    with Suc.prems show ?thesis
      by (auto simp: grab_loop_give_up Let_def)
  qed
qed

lemma retry_delay_values:
  "map retry_delay [0..<9]
     = [10000, 15000, 22500, 33750, 50625, 75937, 113905, 170857, 256285]"
  by (simp add: upt_rec numeral_eq_Suc)

lemma grab_keyboard_sleeps_in_int_range:
  "d \<in> set (sleeps (grab_keyboard xgrab)) \<Longrightarrow> 0 < d \<and> d * 3 < 2 ^ 31"
proof -
  assume d: "d \<in> set (sleeps (grab_keyboard xgrab))"
  have "0 < max_retries" by (simp add: max_retries_def)
  from grab_loop_invariant [OF this, of xgrab]
  have n: "attempts (grab_keyboard xgrab) \<le> max_retries"
    and sl: "sleeps (grab_keyboard xgrab)
        = map retry_delay [0..<attempts (grab_keyboard xgrab) - 1]"
    by (simp_all add: grab_keyboard_def Let_def)
  have "[0..<attempts (grab_keyboard xgrab) - 1] = take (attempts (grab_keyboard xgrab) - 1) [0..<9]"
    using n by (simp add: max_retries_def take_upt)
  then have "sleeps (grab_keyboard xgrab)
      = take (attempts (grab_keyboard xgrab) - 1) (map retry_delay [0..<9])"
    using sl by (simp add: take_map)
  then have "d \<in> set (map retry_delay [0..<9])"
    using d by (metis in_set_takeD)
  then show ?thesis
    unfolding retry_delay_values by auto
qed

text \<open>
  C8, as the code has it. \<^verbatim>\<open>grab_keyboard\<close> calls \<^verbatim>\<open>XGrabKeyboard\<close> at least once and
  at most 10 times. Every call before the last one answered \<^verbatim>\<open>AlreadyGrabbed\<close>, and the
  run slept once after each of them and never after the last call: the delays are the
  first \<open>n - 1\<close> of 10000, 15000, 22500, 33750, 50625, 75937, 113905, 170857 and 256285
  microseconds, each the previous one times 3 divided by 2 in integer arithmetic
  (1.5 times, rounded down to a whole microsecond). A run that stops before the
  tenth call stopped on an answer other than \<^verbatim>\<open>AlreadyGrabbed\<close>. The result is 1 when
  the last call answered \<^verbatim>\<open>GrabSuccess\<close> and 0 (the grab failed) otherwise.
\<close>

theorem grab_keyboard_bounded_retry:
  "let r = grab_keyboard xgrab; n = attempts r in
     1 \<le> n \<and> n \<le> 10
   \<and> (\<forall>j. j < n - 1 \<longrightarrow> xgrab j = AlreadyGrabbed)
   \<and> sleeps r = take (n - 1)
        [10000, 15000, 22500, 33750, 50625, 75937, 113905, 170857, 256285]
   \<and> (\<forall>k. Suc k < length (sleeps r) \<longrightarrow> sleeps r ! Suc k = sleeps r ! k * 3 div 2)
   \<and> (n < 10 \<longrightarrow> xgrab (n - 1) \<noteq> AlreadyGrabbed)
   \<and> grabbed r = (if xgrab (n - 1) = GrabSuccess then 1 else 0)"
proof -
  define r where "r = grab_keyboard xgrab"
  define n where "n = attempts r"
  have "0 < max_retries" by (simp add: max_retries_def)
  from grab_loop_invariant [OF this, of xgrab]
  have inv: "0 < n" "n \<le> 10" "sleeps r = map retry_delay [0..<n - 1]"
    "\<forall>j. j < n - 1 \<longrightarrow> xgrab j = AlreadyGrabbed"
    "n < 10 \<longrightarrow> xgrab (n - 1) \<noteq> AlreadyGrabbed"
    "grabbed r = (if xgrab (n - 1) = GrabSuccess then 1 else 0)"
    by (simp_all add: grab_keyboard_def Let_def r_def n_def max_retries_def)
  have "[0..<n - 1] = take (n - 1) [0..<9]"
    using inv(2) by (simp add: take_upt)
  then have sl: "sleeps r = take (n - 1) (map retry_delay [0..<9])"
    using inv(3) by (simp add: take_map)
  have mult: "sleeps r ! Suc k = sleeps r ! k * 3 div 2" if "Suc k < length (sleeps r)" for k
    using that unfolding inv(3) by simp
  from inv sl mult show ?thesis
    unfolding Let_def r_def [symmetric] n_def [symmetric] retry_delay_values [symmetric]
    by (simp del: retry_delay.simps)
qed

theorem grab_keyboard_bounded_retry_witness:
  "attempts (grab_keyboard (xgrab_busy_then 6 0)) = 7
   \<and> sleeps (grab_keyboard (xgrab_busy_then 6 0)) = [10000, 15000, 22500, 33750, 50625, 75937]
   \<and> grabbed (grab_keyboard (xgrab_busy_then 6 0)) = 1
   \<and> attempts (grab_keyboard (xgrab_busy_then 2 3)) = 3
   \<and> sleeps (grab_keyboard (xgrab_busy_then 2 3)) = [10000, 15000]
   \<and> grabbed (grab_keyboard (xgrab_busy_then 2 3)) = 0"
  using grab_keyboard_bounded_retry [of "xgrab_busy_then 6 0"]
    grab_keyboard_bounded_retry [of "xgrab_busy_then 2 3"]
  by (simp add: grab_keyboard_def grab_keyboard_loop.simps xgrab_busy_then_def
      max_retries_def GrabSuccess_def AlreadyGrabbed_def)

text \<open>
  The claim as worded, with every delay exactly 1.5 times the one before, fails on
  a keyboard that stays grabbed: the fifth delay is 50625 microseconds and the sixth is
  75937, not 75937.5. The run makes 10 calls, sleeps 9 times and fails.
\<close>

theorem grab_keyboard_exact_factor_counterexample:
  "attempts (grab_keyboard xgrab_busy) = 10
   \<and> grabbed (grab_keyboard xgrab_busy) = 0
   \<and> sleeps (grab_keyboard xgrab_busy)
       = [10000, 15000, 22500, 33750, 50625, 75937, 113905, 170857, 256285]
   \<and> 2 * (sleeps (grab_keyboard xgrab_busy) ! 5) \<noteq> 3 * (sleeps (grab_keyboard xgrab_busy) ! 4)"
  by (simp add: grab_keyboard_def grab_keyboard_loop.simps xgrab_busy_def
      max_retries_def GrabSuccess_def AlreadyGrabbed_def)

section \<open>Cycling to the next instance\<close>

lemma find_active_idx_none:
  "active \<notin> set (map (\<lambda>idx. win_id (windows ! idx)) rest)
   \<Longrightarrow> find_active_idx windows active rest i = - 1"
  by (induction rest arbitrary: i) auto

lemma find_active_idx_first:
  "k < length rest \<Longrightarrow> win_id (windows ! (rest ! k)) = active
   \<Longrightarrow> \<forall>j<k. win_id (windows ! (rest ! j)) \<noteq> active
   \<Longrightarrow> find_active_idx windows active rest i = int (i + k)"
proof (induction rest arbitrary: i k)
  case Nil
  then show ?case by simp
next
  case (Cons idx rest)
  show ?case
  proof (cases k)
    case 0
    with Cons.prems show ?thesis by simp
  next
    case (Suc k')
    have "win_id (windows ! idx) \<noteq> active"
      using Cons.prems(3) Suc by auto
    moreover have "find_active_idx windows active rest (Suc i) = int (Suc i + k')"
      using Cons.prems Suc by (intro Cons.IH) auto
    ultimately show ?thesis using Suc by simp
  qed
qed

text \<open>
  C9. For a non-empty candidate list: when the focused window is the candidate at position
  \<open>k\<close> (the first such position, should an identifier repeat), the candidate at position
  \<open>(k + 1) mod match_count\<close> is chosen, which is the next one in discovery order and the
  first one after the last; when the focused window is not among the candidates, the
  first candidate is chosen.
\<close>

theorem choose_target_cycles_next:
  "matching_indices \<noteq> [] \<Longrightarrow>
     (\<forall>k. k < length matching_indices
          \<and> win_id (windows ! (matching_indices ! k)) = active
          \<and> (\<forall>j<k. win_id (windows ! (matching_indices ! j)) \<noteq> active)
        \<longrightarrow> choose_target windows matching_indices active
              = matching_indices ! ((k + 1) mod length matching_indices))
   \<and> (active \<notin> set (map (\<lambda>idx. win_id (windows ! idx)) matching_indices)
        \<longrightarrow> choose_target windows matching_indices active = matching_indices ! 0)"
proof (intro conjI allI impI)
  fix k
  assume ne: "matching_indices \<noteq> []"
    and k: "k < length matching_indices
          \<and> win_id (windows ! (matching_indices ! k)) = active
          \<and> (\<forall>j<k. win_id (windows ! (matching_indices ! j)) \<noteq> active)"
  then have idx: "find_active_idx windows active matching_indices 0 = int k"
    using find_active_idx_first [of k matching_indices windows active 0] by simp
  show "choose_target windows matching_indices active
      = matching_indices ! ((k + 1) mod length matching_indices)"
  proof (cases "length matching_indices = 1")
    case True
    then show ?thesis by (simp add: choose_target_def)
  next
    case False
    then show ?thesis by (simp add: choose_target_def idx Let_def)
  qed
next
  assume "matching_indices \<noteq> []"
    and "active \<notin> set (map (\<lambda>idx. win_id (windows ! idx)) matching_indices)"
  then show "choose_target windows matching_indices active = matching_indices ! 0"
    by (simp add: choose_target_def find_active_idx_none Let_def)
qed

theorem choose_target_cycles_next_witness:
  "choose_target
     [\<lparr>win_id = 11, wm_class = ''discord'', title = ''a''\<rparr>,
      \<lparr>win_id = 33, wm_class = ''zen'', title = ''b''\<rparr>,
      \<lparr>win_id = 22, wm_class = ''discord'', title = ''c''\<rparr>] [0, 2] 11 = 2
   \<and> choose_target
     [\<lparr>win_id = 11, wm_class = ''discord'', title = ''a''\<rparr>,
      \<lparr>win_id = 33, wm_class = ''zen'', title = ''b''\<rparr>,
      \<lparr>win_id = 22, wm_class = ''discord'', title = ''c''\<rparr>] [0, 2] 22 = 0
   \<and> choose_target
     [\<lparr>win_id = 11, wm_class = ''discord'', title = ''a''\<rparr>,
      \<lparr>win_id = 33, wm_class = ''zen'', title = ''b''\<rparr>,
      \<lparr>win_id = 22, wm_class = ''discord'', title = ''c''\<rparr>] [0, 2] 33 = 0"
proof -
  let ?ws = "[\<lparr>win_id = 11, wm_class = ''discord'', title = ''a''\<rparr>,
      \<lparr>win_id = 33, wm_class = ''zen'', title = ''b''\<rparr>,
      \<lparr>win_id = 22, wm_class = ''discord'', title = ''c''\<rparr>]"
  have ne: "[0, 2] \<noteq> ([] :: nat list)" by simp
  note ct = choose_target_cycles_next [OF ne, of ?ws]
  have "choose_target ?ws [0, 2] 11 = [0, 2] ! ((0 + 1) mod length [0, 2 :: nat])"
    using ct [of 11, THEN conjunct1, rule_format, of 0] by simp
  moreover have "choose_target ?ws [0, 2] 22 = [0, 2] ! ((1 + 1) mod length [0, 2 :: nat])"
    using ct [of 22, THEN conjunct1, rule_format, of 1] by simp
  moreover have "choose_target ?ws [0, 2] 33 = [0, 2] ! 0"
    using ct [of 33, THEN conjunct2] by simp
  ultimately show ?thesis by simp
qed

section \<open>Narrowing of the candidates\<close>

lemma strncasecmp_shorter:
  "strncasecmp p (b @ [c]) (Suc (length b)) = 0 \<Longrightarrow> strncasecmp p b (length b) = 0"
proof (induction b arbitrary: p)
  case Nil
  then show ?case by simp
next
  case (Cons x b)
  show ?case
  proof (cases p)
    case Nil
    with Cons.prems show ?thesis by simp
  next
    case (Cons y p')
    with Cons.prems have "tolower y = tolower x"
      by (auto split: if_splits)
    moreover from Cons.prems Cons \<open>tolower y = tolower x\<close>
    have "strncasecmp p' (b @ [c]) (Suc (length b)) = 0" by simp
    ultimately show ?thesis using Cons Cons.IH by simp
  qed
qed

lemma find_match_count: "snd (find_match windows b) = length (candidates windows b)"
  by (simp add: find_match_def candidates_def Let_def)

lemma matches_extend: "set (matches windows (b @ [c])) \<subseteq> set (candidates windows b)"
  by (auto simp: matches_def candidates_def dest: strncasecmp_shorter)

lemma length_matches_extend:
  "length (matches windows (b @ [c])) \<le> length (candidates windows b)"
proof (cases "b = []")
  case True
  then show ?thesis
    using length_filter_le [of _ "[0..<length windows]"] by (simp add: matches_def candidates_def)
next
  case False
  have "length (matches windows (b @ [c]))
      = length (filter (\<lambda>i. strncasecmp (win_prefix (windows ! i)) (b @ [c]) (strlen (b @ [c])) = 0)
          (matches windows b))"
    unfolding matches_def filter_filter
    by (rule arg_cong [where f = length], rule filter_cong) (auto dest: strncasecmp_shorter)
  also have "\<dots> \<le> length (matches windows b)" by (rule length_filter_le)
  finally show ?thesis using False by (simp add: candidates_def)
qed

text \<open>
  C5. Appending one character to the buffer keeps a subset of the candidates, in
  \<^verbatim>\<open>find_match\<close> of atsw.c (and the count it reports does not grow) and in
  \<^verbatim>\<open>check_prefix_match\<close> of atsw\_mode.sh; removing the last character of a buffer
  that is not empty loses no candidate.
\<close>

theorem candidates_narrow_on_append:
  "set (candidates windows (b @ [c])) \<subseteq> set (candidates windows b)
   \<and> snd (find_match windows (b @ [c])) \<le> snd (find_match windows b)
   \<and> (0 < length b' \<longrightarrow> set (candidates windows b') \<subseteq> set (candidates windows (butlast b')))
   \<and> set (sh_candidates tbl (b @ [c])) \<subseteq> set (sh_candidates tbl b)
   \<and> (0 < length b' \<longrightarrow> set (sh_candidates tbl b') \<subseteq> set (sh_candidates tbl (butlast b')))"
proof -
  have c1: "set (candidates ws (x @ [y])) \<subseteq> set (candidates ws x)" for ws x y
    using matches_extend [of ws x y] by (simp add: candidates_def)
  have c2: "snd (find_match windows (b @ [c])) \<le> snd (find_match windows b)"
    using length_matches_extend [of windows b c] by (simp add: find_match_count candidates_def)
  have s1: "set (sh_candidates t (x @ [y])) \<subseteq> set (sh_candidates t x)" for t x y
    by (auto simp: sh_candidates_def sh_matches_def dest: append_prefixD)
  have c3: "set (candidates windows b') \<subseteq> set (candidates windows (butlast b'))" if "0 < length b'"
    using c1 [of windows "butlast b'" "last b'"] that by simp
  have s3: "set (sh_candidates tbl b') \<subseteq> set (sh_candidates tbl (butlast b'))" if "0 < length b'"
    using s1 [of tbl "butlast b'" "last b'"] that by simp
  from c1 c2 c3 s1 s3 show ?thesis by blast
qed

theorem candidates_narrow_on_append_witness:
  "set (candidates
          [\<lparr>win_id = 1, wm_class = ''Discord'', title = ''a'', wm_class_lower = ''discord'', win_prefix = ''di''\<rparr>,
           \<lparr>win_id = 2, wm_class = ''dolphin'', title = ''b'', wm_class_lower = ''dolphin'', win_prefix = ''do''\<rparr>]
          (''d'' @ [CHR ''i''])) = {0}
   \<and> set (candidates
          [\<lparr>win_id = 1, wm_class = ''Discord'', title = ''a'', wm_class_lower = ''discord'', win_prefix = ''di''\<rparr>,
           \<lparr>win_id = 2, wm_class = ''dolphin'', title = ''b'', wm_class_lower = ''dolphin'', win_prefix = ''do''\<rparr>]
          ''d'') = {0, 1}
   \<and> set (sh_candidates [(''di'', 1), (''do'', 2)] (''d'' @ [CHR ''i''])) = {''di''}
   \<and> set (sh_candidates [(''di'', 1), (''do'', 2)] (butlast (''d'' @ [CHR ''i'']))) = {''di'', ''do''}"
  using candidates_narrow_on_append [of
      "[\<lparr>win_id = 1, wm_class = ''Discord'', title = ''a'', wm_class_lower = ''discord'', win_prefix = ''di''\<rparr>,
        \<lparr>win_id = 2, wm_class = ''dolphin'', title = ''b'', wm_class_lower = ''dolphin'', win_prefix = ''do''\<rparr>]"
      "''d''" "CHR ''i''" "''di''" "[(''di'', 1), (''do'', 2)]"]
  by (auto simp: candidates_def matches_def sh_candidates_def sh_matches_def tolower_def)

section \<open>What the comparison functions decide\<close>

lemma of_char_eq_0_iff: "(of_char c :: nat) = 0 \<longleftrightarrow> c = NUL"
proof -
  have "(of_char c :: nat) = of_char NUL \<longleftrightarrow> c = NUL" by (rule of_char_eq_iff)
  then show ?thesis by (simp add: NUL_def)
qed

lemma tolower_eq_NUL_iff: "tolower c = NUL \<longleftrightarrow> c = NUL"
proof
  assume low: "tolower c = NUL"
  show "c = NUL"
  proof (cases "65 \<le> (of_char c :: nat) \<and> (of_char c :: nat) \<le> 90")
    case True
    then have "tolower c = char_of ((of_char c :: nat) + 32)" by (simp add: tolower_def)
    then have "(of_char (tolower c) :: nat) = ((of_char c :: nat) + 32) mod 256" by simp
    also have "\<dots> = (of_char c :: nat) + 32" using True by simp
    finally have "(of_char (tolower c) :: nat) \<noteq> 0" using True by simp
    then show ?thesis using low by (simp add: of_char_eq_0_iff)
  next
    case False
    then have "tolower c = c" unfolding tolower_def Let_def by (rule if_not_P)
    then show ?thesis using low by simp
  qed
next
  assume "c = NUL"
  then show "tolower c = NUL" by (simp add: tolower_def NUL_def)
qed

lemma of_char_tolower_int_eq_0_iff: "(of_char (tolower c) :: int) = 0 \<longleftrightarrow> c = NUL"
proof -
  have "(of_char (tolower c) :: int) = int (of_char (tolower c))" by (simp add: of_nat_of_char)
  then show ?thesis by (simp add: of_char_eq_0_iff tolower_eq_NUL_iff)
qed

lemma of_char_int_diff_eq_0_iff: "(of_char a :: int) - of_char b = 0 \<longleftrightarrow> a = b"
  by simp

lemma tolower_idem: "tolower (tolower c) = tolower c"
proof (cases "65 \<le> (of_char c :: nat) \<and> (of_char c :: nat) \<le> 90")
  case True
  then have "tolower c = char_of ((of_char c :: nat) + 32)" by (simp add: tolower_def)
  then have "(of_char (tolower c) :: nat) = ((of_char c :: nat) + 32) mod 256" by simp
  also have "\<dots> = (of_char c :: nat) + 32" using True by simp
  finally have "\<not> (65 \<le> (of_char (tolower c) :: nat) \<and> (of_char (tolower c) :: nat) \<le> 90)"
    using True by simp
  then have "tolower (tolower c) = tolower c"
    unfolding tolower_def [of "tolower c"] Let_def by (rule if_not_P)
  then show ?thesis .
next
  case False
  then have "tolower c = c" unfolding tolower_def Let_def by (rule if_not_P)
  then show ?thesis by simp
qed

lemma strcmp_refl: "strcmp s s = 0"
  by (induction s) auto

lemma strncasecmp_same_prefix:
  "map tolower (take n a) = map tolower (take n b) \<Longrightarrow> strncasecmp a b n = 0"
proof (induction a b n rule: strncasecmp.induct)
  case (5 a s1 b s2 n)
  then show ?case by simp
qed simp_all

lemma strncasecmp_eq_0_D:
  "strncasecmp a b n = 0 \<Longrightarrow> NUL \<notin> set a \<Longrightarrow> NUL \<notin> set b
   \<Longrightarrow> map tolower (take n a) = map tolower (take n b)"
proof (induction a b n rule: strncasecmp.induct)
  case (3 b s2 n)
  then show ?case by (simp add: of_char_tolower_int_eq_0_iff)
next
  case (4 a s1 n)
  then show ?case by (simp add: of_char_tolower_int_eq_0_iff)
next
  case (5 a s1 b s2 n)
  then show ?case by (auto split: if_splits)
qed simp_all

lemma strncasecmp_buffer_iff:
  assumes "NUL \<notin> set b"
  shows "strncasecmp p b (strlen b) = 0 \<longleftrightarrow> prefix (map tolower b) (map tolower p)"
  using assms
proof (induction b arbitrary: p)
  case Nil
  then show ?case by simp
next
  case (Cons x b)
  show ?case
  proof (cases p)
    case Nil
    with Cons.prems show ?thesis by (auto simp: of_char_tolower_int_eq_0_iff)
  next
    case (Cons y p')
    with Cons.prems Cons.IH [of p'] show ?thesis by auto
  qed
qed

section \<open>A prefix index with a single entry\<close>

lemma c_str_no_NUL: "NUL \<notin> set s \<Longrightarrow> c_str s = s"
  by (auto simp: c_str_def)

lemma map_tolower_no_NUL: "NUL \<notin> set s \<Longrightarrow> NUL \<notin> set (map tolower s)"
proof
  assume "NUL \<notin> set s" and "NUL \<in> set (map tolower s)"
  then obtain x where "x \<in> set s" and "tolower x = NUL" by auto
  then show False using \<open>NUL \<notin> set s\<close> by (simp add: tolower_eq_NUL_iff)
qed

lemma map_tolower_idem: "map tolower (map tolower s) = map tolower s"
  by (induction s) (simp_all add: tolower_idem)

lemma find_match_single:
  assumes "b \<noteq> []" "NUL \<notin> set b"
  shows "find_match [w] b
     = (if prefix (map tolower b) (map tolower (win_prefix w)) then (0, 1) else (- 1, 0))"
proof -
  have "matches [w] b = (if prefix (map tolower b) (map tolower (win_prefix w)) then [0] else [])"
    using assms(2) by (simp add: matches_def strncasecmp_buffer_iff)
  then show ?thesis using assms(1) by (simp add: find_match_def)
qed

lemma compute_prefixes_single_window:
  "compute_prefixes [w] = Inr [w\<lparr>win_prefix := take 1 (wm_class_lower w)\<rparr>]"
proof -
  let ?apps = "[\<lparr>class_lower = wm_class_lower w, window_indices = [0]\<rparr>]"
  have apps: "group_windows [w] 0 [] = ?apps"
    by (simp add: MAX_APPS_def)
  have len: "find_prefix_len ?apps 0 1 = 1"
    by (subst find_prefix_len.simps) (simp add: is_unique_def)
  have "assign_prefixes ?apps 0 [w] = Inr [w\<lparr>win_prefix := take 1 (wm_class_lower w)\<rparr>]"
    unfolding assign_prefixes_def Let_def len by (simp add: MAX_PREFIX_LEN_def)
  then show ?thesis
    unfolding compute_prefixes_def Let_def apps by simp
qed

text \<open>
  C4, as the code has it. With the buffer empty and an index of exactly one entry, a key
  resolves to the entry and activates its window (index 0, exit code 0) exactly when
  the text of the key, in lower case, is a prefix of the entry's sequence (compared
  without regard to case); any other key with text leaves the typed text in the buffer
  with no candidate and activates nothing. Escape ends the program with exit code 1,
  and Backspace, Enter and events that are no key press change nothing. The index
  computed from a single window holds the first character of its lower-case class name.
\<close>

theorem single_entry_key_press:
  "(key_buf \<noteq> [] \<and> length key_buf \<le> 31 \<and> NUL \<notin> set key_buf \<longrightarrow>
      handle_event [w] [] (Key key_buf)
        = (if prefix (map tolower key_buf) (map tolower (win_prefix w)) then Exit 0 (Some 0)
           else Continue (map tolower key_buf)))
   \<and> handle_event [w] [] Escape = Exit 1 None
   \<and> handle_event [w] [] BackSpace = Continue []
   \<and> handle_event [w] [] Return = Continue []
   \<and> handle_event [w] [] NotKeyPress = Continue []
   \<and> compute_prefixes [w] = Inr [w\<lparr>win_prefix := take 1 (wm_class_lower w)\<rparr>]"
proof -
  have key: "handle_event [w] [] (Key key_buf)
        = (if prefix (map tolower key_buf) (map tolower (win_prefix w)) then Exit 0 (Some 0)
           else Continue (map tolower key_buf))"
    if "key_buf \<noteq> []" "length key_buf \<le> 31" "NUL \<notin> set key_buf"
  proof -
    let ?b = "map tolower key_buf"
    have b: "take (MAX_BUFFER_LEN - 1 - length ([] :: string)) ?b = ?b"
      using that(2) by (simp add: MAX_BUFFER_LEN_def)
    have nn: "NUL \<notin> set ?b" using that(3) by (rule map_tolower_no_NUL)
    have ne: "?b \<noteq> []" using that(1) by simp
    have fm: "find_match [w] (c_str ?b)
        = (if prefix ?b (map tolower (win_prefix w)) then (0, 1) else (- 1, 0))"
      using find_match_single [OF ne nn, of w] unfolding c_str_no_NUL [OF nn] map_tolower_idem .
    have "handle_event [w] [] (Key key_buf)
        = (let (match, match_count) = find_match [w] (c_str ?b)
           in if match \<ge> 0 then Exit 0 (Some (nat match)) else Continue ?b)"
      using that(1) b by (simp add: MAX_BUFFER_LEN_def Let_def)
    then show ?thesis unfolding fm by simp
  qed
  show ?thesis
    using key compute_prefixes_single_window [of w] by simp
qed

theorem single_entry_key_press_witness:
  "handle_event
     [\<lparr>win_id = 7, wm_class = ''Zen'', title = ''t'', wm_class_lower = ''zen'', win_prefix = ''z''\<rparr>]
     [] (Key ''Z'') = Exit 0 (Some 0)
   \<and> handle_event
     [\<lparr>win_id = 7, wm_class = ''Zen'', title = ''t'', wm_class_lower = ''zen'', win_prefix = ''z''\<rparr>]
     [] (Key ''q'') = Continue ''q''"
proof -
  let ?w = "\<lparr>win_id = 7, wm_class = ''Zen'', title = ''t'', wm_class_lower = ''zen'',
             win_prefix = ''z''\<rparr>"
  have hz: "''Z'' \<noteq> [] \<and> length ''Z'' \<le> 31 \<and> NUL \<notin> set ''Z''" by (simp add: NUL_def)
  have hq: "''q'' \<noteq> [] \<and> length ''q'' \<le> 31 \<and> NUL \<notin> set ''q''" by (simp add: NUL_def)
  have ez: "prefix (map tolower ''Z'') (map tolower (win_prefix ?w))" by code_simp
  have eq: "\<not> prefix ''q'' (map tolower (win_prefix ?w))" by code_simp
  have lq: "map tolower ''q'' = ''q''" by code_simp
  from single_entry_key_press [of "''Z''" ?w, THEN conjunct1, rule_format, OF hz]
  have "handle_event [?w] [] (Key ''Z'') = Exit 0 (Some 0)"
    unfolding if_P [OF ez] .
  moreover
  from single_entry_key_press [of "''q''" ?w, THEN conjunct1, rule_format, OF hq]
  have "handle_event [?w] [] (Key ''q'') = Continue ''q''"
    unfolding lq if_not_P [OF eq] .
  ultimately show ?thesis by simp
qed

text \<open>
  The claim as worded, that any key resolves a one-entry index, fails for the single
  window of class \<^verbatim>\<open>Zen\<close>: its sequence is \<^verbatim>\<open>z\<close>, and the key \<^verbatim>\<open>x\<close> activates nothing,
  leaves the buffer at \<^verbatim>\<open>x\<close>, and the keys after it cannot match either.
\<close>

theorem single_entry_any_key_counterexample:
  "compute_prefixes
     [\<lparr>win_id = 7, wm_class = ''Zen'', title = ''t'', wm_class_lower = ''zen'', win_prefix = ''''\<rparr>]
     = Inr [\<lparr>win_id = 7, wm_class = ''Zen'', title = ''t'', wm_class_lower = ''zen'', win_prefix = ''z''\<rparr>]
   \<and> handle_event
       [\<lparr>win_id = 7, wm_class = ''Zen'', title = ''t'', wm_class_lower = ''zen'', win_prefix = ''z''\<rparr>]
       [] (Key ''x'') = Continue ''x''
   \<and> event_loop
       [\<lparr>win_id = 7, wm_class = ''Zen'', title = ''t'', wm_class_lower = ''zen'', win_prefix = ''z''\<rparr>]
       [] [Key ''x'', Key ''z''] = None"
  by code_simp

section \<open>The table compute\_prefixes builds\<close>

lemma find_app_Some:
  "find_app apps cls = Some j \<Longrightarrow> j < length apps \<and> strcmp (class_lower (apps ! j)) cls = 0"
  by (induction apps arbitrary: j) (auto split: if_splits)

lemma find_app_None:
  "find_app apps cls = None \<Longrightarrow> j < length apps \<Longrightarrow> strcmp (class_lower (apps ! j)) cls \<noteq> 0"
proof (induction apps arbitrary: j)
  case Nil
  then show ?case by simp
next
  case (Cons g apps)
  then show ?case by (cases j) (auto split: if_splits)
qed

lemma groups_ok_mono: "groups_ok apps n \<Longrightarrow> n \<le> m \<Longrightarrow> groups_ok apps m"
  unfolding groups_ok_def by (meson less_le_trans)

lemma groups_ok_join:
  assumes ok: "groups_ok apps i" and f: "found < length apps"
  shows "groups_ok (apps[found := (apps ! found)\<lparr>window_indices := window_indices (apps ! found) @ [i]\<rparr>]) (Suc i)"
proof -
  let ?g = "(apps ! found)\<lparr>window_indices := window_indices (apps ! found) @ [i]\<rparr>"
  let ?apps = "apps[found := ?g]"
  have nth: "?apps ! a = (if a = found then ?g else apps ! a)" if "a < length apps" for a
    using that by (simp add: nth_list_update)
  have fresh: "i \<notin> set (window_indices (apps ! a))" if "a < length apps" for a
    using ok that unfolding groups_ok_def by (meson less_irrefl)
  have wi: "set (window_indices (?apps ! a)) \<subseteq> insert i (set (window_indices (apps ! a)))"
    if "a < length apps" for a
    using that by (auto simp: nth)
  have cl: "class_lower (?apps ! a) = class_lower (apps ! a)" if "a < length apps" for a
    using that by (simp add: nth)
  show ?thesis
    unfolding groups_ok_def
  proof (intro conjI allI impI)
    fix a assume a: "a < length ?apps"
    then have a': "a < length apps" by simp
    show "window_indices (?apps ! a) \<noteq> []"
      using ok a' unfolding groups_ok_def by (simp add: nth)
    show "distinct (window_indices (?apps ! a))"
      using ok a' fresh [OF f] unfolding groups_ok_def by (auto simp: nth)
    show "\<forall>i'\<in>set (window_indices (?apps ! a)). i' < Suc i"
      using ok a' unfolding groups_ok_def by (auto simp: nth less_Suc_eq)
  next
    fix a b assume "a < length ?apps" "b < length ?apps" "a \<noteq> b"
    then have a: "a < length apps" and b: "b < length apps" by simp_all
    have "set (window_indices (apps ! a)) \<inter> set (window_indices (apps ! b)) = {}"
      using ok a b \<open>a \<noteq> b\<close> unfolding groups_ok_def by blast
    then show "set (window_indices (?apps ! a)) \<inter> set (window_indices (?apps ! b)) = {}"
      using fresh [OF a] fresh [OF b] \<open>a \<noteq> b\<close> by (auto simp: nth a b)
  next
    fix a b assume "a < length ?apps" "b < length ?apps" "a < b"
    then have a: "a < length apps" and b: "b < length apps" by simp_all
    show "strcmp (class_lower (?apps ! a)) (class_lower (?apps ! b)) \<noteq> 0"
      using ok a b \<open>a < b\<close> unfolding groups_ok_def cl [OF a] cl [OF b] by blast
  qed
qed

lemma groups_ok_new:
  assumes ok: "groups_ok apps i" and none: "find_app apps cls = None"
  shows "groups_ok (apps @ [\<lparr>class_lower = cls, window_indices = [i]\<rparr>]) (Suc i)"
proof -
  let ?apps = "apps @ [\<lparr>class_lower = cls, window_indices = [i]\<rparr>]"
  have fresh: "i \<notin> set (window_indices (apps ! a))" if "a < length apps" for a
    using ok that unfolding groups_ok_def by (meson less_irrefl)
  show ?thesis
    unfolding groups_ok_def
  proof (intro conjI allI impI)
    fix a assume a: "a < length ?apps"
    show "window_indices (?apps ! a) \<noteq> []"
      using ok a unfolding groups_ok_def by (auto simp: nth_append)
    show "distinct (window_indices (?apps ! a))"
      using ok a unfolding groups_ok_def by (auto simp: nth_append)
    show "\<forall>i'\<in>set (window_indices (?apps ! a)). i' < Suc i"
      using ok a unfolding groups_ok_def by (auto simp: nth_append less_Suc_eq)
  next
    fix a b assume a: "a < length ?apps" and b: "b < length ?apps" and "a \<noteq> b"
    show "set (window_indices (?apps ! a)) \<inter> set (window_indices (?apps ! b)) = {}"
    proof (cases "a < length apps \<and> b < length apps")
      case True
      then show ?thesis using ok \<open>a \<noteq> b\<close> unfolding groups_ok_def by (simp add: nth_append)
    next
      case False
      then show ?thesis using a b \<open>a \<noteq> b\<close> fresh by (auto simp: nth_append less_Suc_eq)
    qed
  next
    fix a b assume a: "a < length ?apps" and b: "b < length ?apps" and "a < b"
    show "strcmp (class_lower (?apps ! a)) (class_lower (?apps ! b)) \<noteq> 0"
    proof (cases "b < length apps")
      case True
      then show ?thesis using ok \<open>a < b\<close> unfolding groups_ok_def by (simp add: nth_append)
    next
      case False
      then have "b = length apps" using b by simp
      then show ?thesis using \<open>a < b\<close> find_app_None [OF none, of a] by (simp add: nth_append)
    qed
  qed
qed

lemma group_windows_ok:
  "groups_ok apps i \<Longrightarrow> groups_ok (group_windows rest i apps) (i + length rest)"
proof (induction rest arbitrary: i apps)
  case Nil
  then show ?case by simp
next
  case (Cons w rest)
  show ?case
  proof (cases "find_app apps (wm_class_lower w)")
    case None
    show ?thesis
    proof (cases "length apps < MAX_APPS")
      case True
      have "groups_ok (apps @ [\<lparr>class_lower = wm_class_lower w, window_indices = [i]\<rparr>]) (Suc i)"
        using Cons.prems None by (rule groups_ok_new)
      from Cons.IH [OF this] show ?thesis using None True by simp
    next
      case False
      have "groups_ok apps (Suc i)" using Cons.prems by (rule groups_ok_mono) simp
      from Cons.IH [OF this] show ?thesis using None False by simp
    qed
  next
    case (Some found)
    then have "found < length apps" using find_app_Some by blast
    with Cons.prems have "groups_ok (apps[found := (apps ! found)\<lparr>window_indices := window_indices (apps ! found) @ [i]\<rparr>]) (Suc i)"
      by (rule groups_ok_join)
    from Cons.IH [OF this] show ?thesis using Some by simp
  qed
qed

lemma groups_ok_initial: "groups_ok (group_windows windows 0 []) (length windows)"
  using group_windows_ok [of "[]" 0 windows] by (simp add: groups_ok_def)


declare find_prefix_len.simps [simp del]

lemma is_unique_iff:
  "is_unique apps a l \<longleftrightarrow>
     (\<forall>other<length apps. other \<noteq> a \<longrightarrow>
        strncasecmp (class_lower (apps ! a)) (class_lower (apps ! other)) l \<noteq> 0)"
  by (auto simp: is_unique_def list_all_iff)

lemma find_prefix_len_ge: "s \<le> find_prefix_len apps a s"
proof (induction apps a s rule: find_prefix_len.induct)
  case (1 apps a s)
  show ?case
  proof (cases "s \<le> strlen (class_lower (apps ! a)) \<and> \<not> is_unique apps a s")
    case True
    then have "find_prefix_len apps a s = find_prefix_len apps a (Suc s)"
      by (subst find_prefix_len.simps) simp
    moreover have "Suc s \<le> find_prefix_len apps a (Suc s)"
      using True "1.IH" by simp
    ultimately show ?thesis by simp
  next
    case False
    then have "find_prefix_len apps a s = s"
      by (subst find_prefix_len.simps) auto
    then show ?thesis by simp
  qed
qed

lemma find_prefix_len_le:
  "s \<le> Suc (strlen (class_lower (apps ! a)))
   \<Longrightarrow> find_prefix_len apps a s \<le> Suc (strlen (class_lower (apps ! a)))"
proof (induction apps a s rule: find_prefix_len.induct)
  case (1 apps a s)
  show ?case
  proof (cases "s \<le> strlen (class_lower (apps ! a)) \<and> \<not> is_unique apps a s")
    case True
    then have "find_prefix_len apps a s = find_prefix_len apps a (Suc s)"
      by (subst find_prefix_len.simps) simp
    moreover have "find_prefix_len apps a (Suc s) \<le> Suc (strlen (class_lower (apps ! a)))"
      using True "1.IH" by simp
    ultimately show ?thesis by simp
  next
    case False
    then have "find_prefix_len apps a s = s"
      by (subst find_prefix_len.simps) auto
    then show ?thesis using "1.prems" by simp
  qed
qed

lemma find_prefix_len_unique:
  "find_prefix_len apps a s \<le> strlen (class_lower (apps ! a))
   \<Longrightarrow> is_unique apps a (find_prefix_len apps a s)"
proof (induction apps a s rule: find_prefix_len.induct)
  case (1 apps a s)
  show ?case
  proof (cases "s \<le> strlen (class_lower (apps ! a)) \<and> \<not> is_unique apps a s")
    case True
    then have eq: "find_prefix_len apps a s = find_prefix_len apps a (Suc s)"
      by (subst find_prefix_len.simps) simp
    show ?thesis using True "1.IH" "1.prems" unfolding eq by simp
  next
    case False
    then have eq: "find_prefix_len apps a s = s"
      by (subst find_prefix_len.simps) auto
    show ?thesis using False "1.prems" unfolding eq by auto
  qed
qed

lemma find_prefix_len_exhausted:
  "\<forall>l. s \<le> l \<and> l \<le> strlen (class_lower (apps ! a)) \<longrightarrow> \<not> is_unique apps a l
   \<Longrightarrow> s \<le> Suc (strlen (class_lower (apps ! a)))
   \<Longrightarrow> find_prefix_len apps a s = Suc (strlen (class_lower (apps ! a)))"
proof (induction apps a s rule: find_prefix_len.induct)
  case (1 apps a s)
  show ?case
  proof (cases "s \<le> strlen (class_lower (apps ! a))")
    case True
    then have nu: "\<not> is_unique apps a s" using "1.prems"(1) by simp
    then have eq: "find_prefix_len apps a s = find_prefix_len apps a (Suc s)"
      using True by (subst find_prefix_len.simps) simp
    show ?thesis unfolding eq using True nu "1.prems" by (intro "1.IH") auto
  next
    case False
    then have "find_prefix_len apps a s = s"
      by (subst find_prefix_len.simps) auto
    then show ?thesis using False "1.prems"(2) by simp
  qed
qed

lemma find_prefix_len_not_unique_before:
  "s \<le> l \<Longrightarrow> l < find_prefix_len apps a s \<Longrightarrow> l \<le> strlen (class_lower (apps ! a))
   \<Longrightarrow> \<not> is_unique apps a l"
proof (induction apps a s rule: find_prefix_len.induct)
  case (1 apps a s)
  show ?case
  proof (cases "s \<le> strlen (class_lower (apps ! a)) \<and> \<not> is_unique apps a s")
    case True
    then have eq: "find_prefix_len apps a s = find_prefix_len apps a (Suc s)"
      by (subst find_prefix_len.simps) simp
    show ?thesis
    proof (cases "l = s")
      case True
      then show ?thesis using \<open>s \<le> strlen (class_lower (apps ! a)) \<and> \<not> is_unique apps a s\<close> by simp
    next
      case False
      then have "Suc s \<le> l" using "1.prems"(1) by simp
      then show ?thesis using True "1.IH" "1.prems" unfolding eq by simp
    qed
  next
    case False
    then have "find_prefix_len apps a s = s"
      by (subst find_prefix_len.simps) auto
    then show ?thesis using "1.prems" by simp
  qed
qed

lemma assign_numbered_nth:
  "distinct idxs \<Longrightarrow> \<forall>i\<in>set idxs. i < length ws \<Longrightarrow>
     length (assign_numbered ws c L idxs w) = length ws
   \<and> (\<forall>k<length idxs. win_prefix (assign_numbered ws c L idxs w ! (idxs ! k))
          = snprintf_prefix L c (w + k + 1))
   \<and> (\<forall>j. j \<notin> set idxs \<longrightarrow> assign_numbered ws c L idxs w ! j = ws ! j)"
proof (induction idxs arbitrary: ws w)
  case Nil
  then show ?case by simp
next
  case (Cons idx rest)
  let ?ws1 = "ws[idx := (ws ! idx)\<lparr>win_prefix := snprintf_prefix L c (w + 1)\<rparr>]"
  have d: "distinct rest" and nin: "idx \<notin> set rest" using Cons.prems(1) by simp_all
  have b: "\<forall>i\<in>set rest. i < length ?ws1" using Cons.prems(2) by simp
  note ih = Cons.IH [OF d b, of "Suc w"]
  have len: "length (assign_numbered ws c L (idx # rest) w) = length ws"
    using ih by simp
  have other: "assign_numbered ws c L (idx # rest) w ! j = ws ! j" if "j \<notin> set (idx # rest)" for j
  proof -
    from that have "j \<notin> set rest" "j \<noteq> idx" by auto
    then show ?thesis using ih by simp
  qed
  have here: "win_prefix (assign_numbered ws c L (idx # rest) w ! ((idx # rest) ! k))
      = snprintf_prefix L c (w + k + 1)" if "k < length (idx # rest)" for k
  proof (cases k)
    case 0
    have "assign_numbered ws c L (idx # rest) w ! idx = ?ws1 ! idx"
      using ih nin by simp
    then show ?thesis using 0 Cons.prems(2) by simp
  next
    case (Suc k')
    then have "k' < length rest" using that by simp
    then show ?thesis using ih Suc by simp
  qed
  from len other here show ?case by blast
qed


lemma assign_prefixes_nth:
  assumes ok: "groups_ok apps (length ws)" and a: "a < length apps"
    and res: "assign_prefixes apps a ws = Inr ws1"
  shows "length ws1 = length ws
   \<and> (\<forall>k<app_count (apps ! a). win_prefix (ws1 ! (window_indices (apps ! a) ! k)) = sequence_of apps a k)
   \<and> (\<forall>j. j \<notin> set (window_indices (apps ! a)) \<longrightarrow> ws1 ! j = ws ! j)"
proof -
  let ?idxs = "window_indices (apps ! a)"
  have d: "distinct ?idxs" and b: "\<forall>i\<in>set ?idxs. i < length ws" and ne: "?idxs \<noteq> []"
    using ok a unfolding groups_ok_def by blast+
  show ?thesis
  proof (cases "app_count (apps ! a) = 1")
    case True
    then obtain idx where idx: "?idxs = [idx]"
      by (cases ?idxs) auto
    then have lt: "idx < length ws" using b by simp
    from res True idx
    have "ws1 = ws[idx := (ws ! idx)\<lparr>win_prefix :=
        take (find_prefix_len apps a 1) (class_lower (apps ! a))\<rparr>]"
      by (simp add: assign_prefixes_def Let_def split: if_splits)
    then show ?thesis using True idx lt by (simp add: sequence_of_def)
  next
    case False
    from res False
    have "ws1 = assign_numbered ws (class_lower (apps ! a)) (find_prefix_len apps a 1) ?idxs 0"
      by (simp add: assign_prefixes_def Let_def)
    then show ?thesis
      using assign_numbered_nth [OF d b, of "class_lower (apps ! a)" "find_prefix_len apps a 1" 0] False
      by (simp add: sequence_of_def)
  qed
qed

lemma prefix_loop_nth:
  "groups_ok apps (length ws) \<Longrightarrow> distinct todo \<Longrightarrow> \<forall>a\<in>set todo. a < length apps
   \<Longrightarrow> prefix_loop apps todo ws = Inr ws'
   \<Longrightarrow> length ws' = length ws
    \<and> (\<forall>a\<in>set todo. \<forall>k<app_count (apps ! a).
          win_prefix (ws' ! (window_indices (apps ! a) ! k)) = sequence_of apps a k)
    \<and> (\<forall>j. (\<forall>a\<in>set todo. j \<notin> set (window_indices (apps ! a))) \<longrightarrow> ws' ! j = ws ! j)"
proof (induction todo arbitrary: ws)
  case Nil
  then show ?case by simp
next
  case (Cons a todo)
  from Cons.prems(4) obtain ws1 where s1: "assign_prefixes apps a ws = Inr ws1"
    and rest: "prefix_loop apps todo ws1 = Inr ws'"
    by (auto split: sum.splits)
  have a: "a < length apps" using Cons.prems(3) by simp
  note st = assign_prefixes_nth [OF Cons.prems(1) a s1]
  have ok1: "groups_ok apps (length ws1)" using Cons.prems(1) st by simp
  have d: "distinct todo" and nin: "a \<notin> set todo" using Cons.prems(2) by simp_all
  have b: "\<forall>a\<in>set todo. a < length apps" using Cons.prems(3) by simp
  note ih = Cons.IH [OF ok1 d b rest]
  have len: "length ws' = length ws" using ih st by simp
  have disj: "window_indices (apps ! a) ! k \<notin> set (window_indices (apps ! b))"
    if "k < app_count (apps ! a)" "b \<in> set todo" for k b
  proof -
    have "b \<noteq> a" "b < length apps" using that(2) nin Cons.prems(3) by auto
    then have "set (window_indices (apps ! a)) \<inter> set (window_indices (apps ! b)) = {}"
      using Cons.prems(1) a unfolding groups_ok_def by blast
    then show ?thesis using that(1) by (meson disjoint_iff nth_mem)
  qed
  have here: "win_prefix (ws' ! (window_indices (apps ! a) ! k)) = sequence_of apps a k"
    if "k < app_count (apps ! a)" for k
  proof -
    have "ws' ! (window_indices (apps ! a) ! k) = ws1 ! (window_indices (apps ! a) ! k)"
      using ih disj [OF that] by blast
    then show ?thesis using st that by simp
  qed
  have other: "ws' ! j = ws ! j"
    if "\<forall>b\<in>set (a # todo). j \<notin> set (window_indices (apps ! b))" for j
  proof -
    have "ws' ! j = ws1 ! j" using ih that by simp
    then show ?thesis using st that by simp
  qed
  from len here other ih show ?case by auto
qed

lemma compute_prefixes_table:
  assumes "compute_prefixes ws = Inr ws'"
  shows "length ws' = length ws
   \<and> (\<forall>a<length (group_windows ws 0 []). \<forall>k<app_count (group_windows ws 0 [] ! a).
        win_prefix (ws' ! (window_indices (group_windows ws 0 [] ! a) ! k))
          = sequence_of (group_windows ws 0 []) a k)"
proof -
  let ?apps = "group_windows ws 0 []"
  have loop: "prefix_loop ?apps [0..<length ?apps] ws = Inr ws'"
    using assms by (simp add: compute_prefixes_def Let_def)
  from prefix_loop_nth [OF groups_ok_initial _ _ loop] show ?thesis by simp
qed

lemma assign_prefixes_ok_iff:
  "(\<exists>ws1. assign_prefixes apps a ws = Inr ws1)
   \<longleftrightarrow> (app_count (apps ! a) = 1 \<longrightarrow> find_prefix_len apps a 1 < MAX_PREFIX_LEN)"
  by (simp add: assign_prefixes_def Let_def)

lemma prefix_loop_ok_iff:
  "(\<exists>ws'. prefix_loop apps todo ws = Inr ws')
   \<longleftrightarrow> (\<forall>a\<in>set todo. app_count (apps ! a) = 1 \<longrightarrow> find_prefix_len apps a 1 < MAX_PREFIX_LEN)"
proof (induction todo arbitrary: ws)
  case Nil
  then show ?case by simp
next
  case (Cons a todo)
  show ?case
  proof (cases "assign_prefixes apps a ws")
    case (Inl e)
    then have "\<not> (app_count (apps ! a) = 1 \<longrightarrow> find_prefix_len apps a 1 < MAX_PREFIX_LEN)"
      using assign_prefixes_ok_iff [of apps a ws] by simp
    then show ?thesis using Inl by simp
  next
    case (Inr ws1)
    then have "app_count (apps ! a) = 1 \<longrightarrow> find_prefix_len apps a 1 < MAX_PREFIX_LEN"
      using assign_prefixes_ok_iff [of apps a ws] by blast
    then show ?thesis using Inr Cons.IH [of ws1] by simp
  qed
qed

lemma compute_prefixes_ok_iff:
  "(\<exists>ws'. compute_prefixes ws = Inr ws')
   \<longleftrightarrow> (\<forall>a<length (group_windows ws 0 []). app_count (group_windows ws 0 [] ! a) = 1
          \<longrightarrow> find_prefix_len (group_windows ws 0 []) a 1 < MAX_PREFIX_LEN)"
  unfolding compute_prefixes_def Let_def prefix_loop_ok_iff by auto


lemma group_windows_classes:
  "a < length (group_windows rest i apps)
   \<Longrightarrow> class_lower (group_windows rest i apps ! a)
         \<in> class_lower ` set apps \<union> wm_class_lower ` set rest"
proof (induction rest arbitrary: i apps)
  case Nil
  then show ?case by simp
next
  case (Cons w rest)
  show ?case
  proof (cases "find_app apps (wm_class_lower w)")
    case None
    show ?thesis
    proof (cases "length apps < MAX_APPS")
      case True
      with None Cons.prems Cons.IH [of "Suc i" "apps @ [\<lparr>class_lower = wm_class_lower w, window_indices = [i]\<rparr>]"]
      show ?thesis by auto
    next
      case False
      with None Cons.prems Cons.IH [of "Suc i" apps] show ?thesis by auto
    qed
  next
    case (Some found)
    let ?apps = "apps[found := (apps ! found)\<lparr>window_indices := window_indices (apps ! found) @ [i]\<rparr>]"
    have f: "found < length apps" using Some find_app_Some by blast
    have "class_lower ` set ?apps \<subseteq> class_lower ` set apps"
    proof
      fix c assume "c \<in> class_lower ` set ?apps"
      then obtain n where n: "n < length apps" and c: "c = class_lower (?apps ! n)"
        by (auto simp: in_set_conv_nth)
      then have "c = class_lower (apps ! n)" by (cases "n = found") simp_all
      then show "c \<in> class_lower ` set apps" using n by simp
    qed
    with Some Cons.prems Cons.IH [of "Suc i" ?apps] show ?thesis by auto
  qed
qed

lemma group_windows_classes_NUL_free:
  assumes "\<forall>w\<in>set ws. NUL \<notin> set (wm_class_lower w)" and "a < length (group_windows ws 0 [])"
  shows "NUL \<notin> set (class_lower (group_windows ws 0 [] ! a))"
  using group_windows_classes [OF assms(2)] assms(1) by auto

lemma group_classes_differ:
  assumes "a < length (group_windows ws 0 [])" "b < length (group_windows ws 0 [])" "a \<noteq> b"
  shows "class_lower (group_windows ws 0 [] ! a) \<noteq> class_lower (group_windows ws 0 [] ! b)"
proof -
  have ok: "groups_ok (group_windows ws 0 []) (length ws)" by (rule groups_ok_initial)
  consider "a < b" | "b < a" using assms(3) by linarith
  then show ?thesis
  proof cases
    case 1
    then have "strcmp (class_lower (group_windows ws 0 [] ! a)) (class_lower (group_windows ws 0 [] ! b)) \<noteq> 0"
      using ok assms unfolding groups_ok_def by blast
    then show ?thesis using strcmp_refl by metis
  next
    case 2
    then have "strcmp (class_lower (group_windows ws 0 [] ! b)) (class_lower (group_windows ws 0 [] ! a)) \<noteq> 0"
      using ok assms unfolding groups_ok_def by blast
    then show ?thesis using strcmp_refl by metis
  qed
qed

lemma unique_takes_differ:
  assumes "is_unique apps a l" "other < length apps" "other \<noteq> a"
  shows "take l (class_lower (apps ! a)) \<noteq> take l (class_lower (apps ! other))"
proof
  assume "take l (class_lower (apps ! a)) = take l (class_lower (apps ! other))"
  then have "strncasecmp (class_lower (apps ! a)) (class_lower (apps ! other)) l = 0"
    by (intro strncasecmp_same_prefix) simp
  then show False using assms by (simp add: is_unique_iff)
qed

lemma prefix_append_short:
  assumes "prefix p (x @ d)" "length p \<le> length x"
  shows "p = take (length p) x"
proof -
  from assms(1) obtain r where "x @ d = p @ r" by (auto simp: prefix_def)
  then have "take (length p) (x @ d) = p" by simp
  then show ?thesis using assms(2) by simp
qed

lemma prefix_append_long:
  assumes "prefix p (x @ d)" "length x \<le> length p"
  shows "take (length x) p = x"
proof -
  from assms(1) obtain r where "x @ d = p @ r" by (auto simp: prefix_def)
  then have "take (length x) (x @ d) = take (length x) (p @ r)" by simp
  then show ?thesis using assms(2) by simp
qed

lemma not_prefix_of_plain:
  assumes la: "la \<le> length ca" and diff: "take la ca \<noteq> take la cb"
  shows "\<not> prefix (take la ca) (take lb cb)"
proof
  assume p: "prefix (take la ca) (take lb cb)"
  then have "length (take la ca) \<le> length (take lb cb)" by (rule prefix_length_le)
  then have le: "la \<le> lb" "la \<le> length cb" using la by simp_all
  from p have "take la ca = take (length (take la ca)) (take lb cb)"
    using prefix_append_short [of "take la ca" "take lb cb" "[]"] la le by simp
  then have "take la ca = take la cb" using la le by (simp add: min_absorb2 min_absorb1)
  then show False using diff by simp
qed

lemma not_prefix_of_numbered:
  assumes la: "la \<le> length ca" and lb: "lb \<le> length cb"
    and da: "take la ca \<noteq> take la cb" and db: "take lb cb \<noteq> take lb ca"
  shows "\<not> prefix (take la ca) (take n (take lb cb @ d))"
proof
  assume "prefix (take la ca) (take n (take lb cb @ d))"
  then have p: "prefix (take la ca) (take lb cb @ d)"
    using take_is_prefix prefix_order.trans by blast
  show False
  proof (cases "la \<le> lb")
    case True
    have "take la ca = take (length (take la ca)) (take lb cb)"
      using prefix_append_short [OF p] la lb True by simp
    then have "take la ca = take la cb" using la True by (simp add: min_absorb2 min_absorb1)
    then show False using da by simp
  next
    case False
    then have "take (length (take lb cb)) (take la ca) = take lb cb"
      using prefix_append_long [OF p] la lb by simp
    then have "take lb ca = take lb cb" using lb False by (simp add: min_absorb2 min_absorb1)
    then show False using db by simp
  qed
qed

lemma class_prefix_exhausts:
  assumes a: "a < length apps" and b: "b < length apps" "b \<noteq> a"
    and p: "prefix (map tolower (class_lower (apps ! a))) (map tolower (class_lower (apps ! b)))"
  shows "find_prefix_len apps a 1 = Suc (strlen (class_lower (apps ! a)))"
proof (rule find_prefix_len_exhausted)
  show "\<forall>l. 1 \<le> l \<and> l \<le> strlen (class_lower (apps ! a)) \<longrightarrow> \<not> is_unique apps a l"
  proof (intro allI impI)
    fix l assume l: "1 \<le> l \<and> l \<le> strlen (class_lower (apps ! a))"
    from p obtain r where r: "map tolower (class_lower (apps ! b)) = map tolower (class_lower (apps ! a)) @ r"
      by (auto simp: prefix_def)
    have "take l (map tolower (class_lower (apps ! b))) = take l (map tolower (class_lower (apps ! a)))"
      unfolding r using l by simp
    then have "strncasecmp (class_lower (apps ! a)) (class_lower (apps ! b)) l = 0"
      by (intro strncasecmp_same_prefix) (simp add: take_map)
    then show "\<not> is_unique apps a l" using b by (auto simp: is_unique_iff)
  qed
qed simp

section \<open>The class names discover\_windows stores\<close>

lemma c_str_NUL_free: "NUL \<notin> set (c_str bytes)"
  by (auto simp: c_str_def dest: set_takeWhileD)

lemma get_wm_class_Some:
  assumes "get_wm_class prop = Some cls"
  shows "cls \<noteq> [] \<and> NUL \<notin> set cls \<and> strlen cls < MAX_CLASS_LEN"
proof -
  from assms obtain s where cls: "cls = take (MAX_CLASS_LEN - 1) (c_str s)" and ne: "cls \<noteq> []"
    by (auto simp: get_wm_class_def Let_def split: option.splits if_splits)
  have "NUL \<notin> set cls" unfolding cls using c_str_NUL_free [of s] by (meson in_set_takeD)
  moreover have "strlen cls < MAX_CLASS_LEN" unfolding cls by (simp add: MAX_CLASS_LEN_def)
  ultimately show ?thesis using ne by simp
qed

lemma discover_loop_stored:
  assumes "\<forall>w\<in>set windows. P w"
    and "\<And>c cls. get_wm_class (client_wm_class c) = Some cls \<Longrightarrow> P (store c cls)"
  shows "\<forall>w\<in>set (discover_loop store client_list windows). P w"
  using assms(1)
proof (induction client_list arbitrary: windows)
  case Nil
  then show ?case by simp
next
  case (Cons c client_list)
  show ?case
  proof (cases "get_wm_class (client_wm_class c)")
    case None
    then show ?thesis using Cons by simp
  next
    case (Some cls)
    then have "\<forall>w\<in>set (windows @ [store c cls]). P w"
      using Cons.prems assms(2) by simp
    from Cons.IH [OF this] show ?thesis using Some Cons.prems by simp
  qed
qed

text \<open>
  Every window \<^verbatim>\<open>discover_windows\<close> of atsw.c stores has a class name that is not
  empty and holds no NUL byte, its lower-case copy is the class name in lower case,
  and its sequence is empty.
\<close>

lemma discovered_classes:
  assumes "discover_windows store_atsw prop = (n, windows)" and "w \<in> set windows"
  shows "wm_class_lower w = map tolower (wm_class w) \<and> wm_class_lower w \<noteq> []
    \<and> NUL \<notin> set (wm_class_lower w) \<and> win_prefix w = []"
proof -
  let ?P = "\<lambda>w. wm_class_lower w = map tolower (wm_class w) \<and> wm_class_lower w \<noteq> []
    \<and> NUL \<notin> set (wm_class_lower w) \<and> win_prefix w = []"
  have st: "?P (store_atsw c cls)" if "get_wm_class (client_wm_class c) = Some cls" for c cls
    using get_wm_class_Some [OF that] map_tolower_no_NUL [of cls] by (simp add: store_atsw_def)
  have "\<forall>w\<in>set (discover_loop store_atsw cl []). ?P w" for cl
  proof (rule discover_loop_stored)
    show "\<forall>w\<in>set []. ?P w" by simp
  next
    fix c :: Client and cls assume "get_wm_class (client_wm_class c) = Some cls"
    then show "?P (store_atsw c cls)" by (rule st)
  qed
  then show ?thesis using assms
    by (auto simp: discover_windows_def Let_def split: option.splits)
qed

section \<open>Sequences of single-window groups\<close>

lemma single_sequence:
  assumes "compute_prefixes ws = Inr ws'" and "a < length (group_windows ws 0 [])"
    and "window_indices (group_windows ws 0 [] ! a) = [i]"
  shows "win_prefix (ws' ! i)
    = take (find_prefix_len (group_windows ws 0 []) a 1) (class_lower (group_windows ws 0 [] ! a))"
proof -
  have "0 < app_count (group_windows ws 0 [] ! a)" using assms(3) by simp
  from compute_prefixes_table [OF assms(1), THEN conjunct2, rule_format, OF assms(2) this]
  show ?thesis using assms(3) by (simp add: sequence_of_def)
qed

lemma member_sequence:
  assumes "compute_prefixes ws = Inr ws'" and "b < length (group_windows ws 0 [])"
    and "j \<in> set (window_indices (group_windows ws 0 [] ! b))"
  shows "\<exists>k<app_count (group_windows ws 0 [] ! b).
      j = window_indices (group_windows ws 0 [] ! b) ! k
      \<and> win_prefix (ws' ! j) = sequence_of (group_windows ws 0 []) b k"
proof -
  from assms(3) obtain k where k: "k < app_count (group_windows ws 0 [] ! b)"
    and j: "j = window_indices (group_windows ws 0 [] ! b) ! k"
    by (auto simp: in_set_conv_nth)
  from compute_prefixes_table [OF assms(1), THEN conjunct2, rule_format, OF assms(2) k]
  show ?thesis using k j by auto
qed

text \<open>
  The part of the class name that the sequence of a group starts with tells the group
  from every group whose class name does not start with this group's class name: it
  is the unique prefix the search found, or the whole class name.
\<close>

lemma sequence_head:
  assumes "c < length apps" and "d < length apps"
    and "\<not> prefix (class_lower (apps ! c)) (class_lower (apps ! d))"
  shows "\<exists>l\<le>strlen (class_lower (apps ! c)).
      take (find_prefix_len apps c 1) (class_lower (apps ! c)) = take l (class_lower (apps ! c))
    \<and> take l (class_lower (apps ! c)) \<noteq> take l (class_lower (apps ! d))"
proof (cases "find_prefix_len apps c 1 \<le> strlen (class_lower (apps ! c))")
  case True
  then have "is_unique apps c (find_prefix_len apps c 1)" by (rule find_prefix_len_unique)
  moreover have "d \<noteq> c" using assms(3) by auto
  ultimately have "take (find_prefix_len apps c 1) (class_lower (apps ! c))
      \<noteq> take (find_prefix_len apps c 1) (class_lower (apps ! d))"
    using assms(2) by (intro unique_takes_differ)
  with True show ?thesis by blast
next
  case False
  let ?cc = "class_lower (apps ! c)" and ?cd = "class_lower (apps ! d)"
  have "take (find_prefix_len apps c 1) ?cc = take (strlen ?cc) ?cc" using False by simp
  moreover have "take (strlen ?cc) ?cc \<noteq> take (strlen ?cc) ?cd"
  proof
    assume "take (strlen ?cc) ?cc = take (strlen ?cc) ?cd"
    then have "?cc = take (strlen ?cc) ?cd" by simp
    then have "prefix ?cc ?cd" by (metis take_is_prefix)
    with assms(3) show False ..
  qed
  ultimately show ?thesis by blast
qed

text \<open>
  C2, as the code has it. Take a group with one window and another group, such that the
  class name of the first (in lower case, as the groups hold it) is not a prefix of the
  class name of the second. The sequence of the first is then no prefix of, and so
  also different from, the sequence of any window of the second, provided the second
  group has one window only or its class name is not a prefix of the first group's.
  The groups are those \<^verbatim>\<open>compute_prefixes\<close> forms, at most \<^verbatim>\<open>MAX_APPS\<close>.
\<close>

theorem single_instance_sequence_not_prefix:
  assumes "compute_prefixes ws = Inr ws'"
    and "a < length (group_windows ws 0 [])"
    and "window_indices (group_windows ws 0 [] ! a) = [i]"
    and "b < length (group_windows ws 0 [])"
    and "j \<in> set (window_indices (group_windows ws 0 [] ! b))"
    and "\<not> prefix (class_lower (group_windows ws 0 [] ! a)) (class_lower (group_windows ws 0 [] ! b))"
    and "app_count (group_windows ws 0 [] ! b) = 1
         \<or> \<not> prefix (class_lower (group_windows ws 0 [] ! b))
                      (class_lower (group_windows ws 0 [] ! a))"
  shows "\<not> prefix (win_prefix (ws' ! i)) (win_prefix (ws' ! j))"
proof -
  let ?apps = "group_windows ws 0 []"
  let ?ca = "class_lower (?apps ! a)" and ?cb = "class_lower (?apps ! b)"
  let ?la = "find_prefix_len ?apps a 1" and ?lb = "find_prefix_len ?apps b 1"
  from sequence_head [OF assms(2,4,6)]
  obtain la where la: "la \<le> strlen ?ca" and ha: "take ?la ?ca = take la ?ca"
    and da: "take la ?ca \<noteq> take la ?cb" by blast
  have pi: "win_prefix (ws' ! i) = take la ?ca"
    using single_sequence [OF assms(1,2,3)] ha by simp
  from member_sequence [OF assms(1,4,5)]
  obtain k where k: "k < app_count (?apps ! b)"
    and pj: "win_prefix (ws' ! j) = sequence_of ?apps b k" by blast
  show ?thesis
  proof (cases "app_count (?apps ! b) = 1")
    case True
    then have "win_prefix (ws' ! j) = take ?lb ?cb" unfolding pj sequence_of_def by (rule if_P)
    then show ?thesis unfolding pi using la da by (simp only: not_prefix_of_plain not_False_eq_True)
  next
    case False
    then have "\<not> prefix ?cb ?ca" using assms(7) by simp
    with sequence_head [OF assms(4,2)]
    obtain lb where lb: "lb \<le> strlen ?cb" and hb: "take ?lb ?cb = take lb ?cb"
      and db: "take lb ?cb \<noteq> take lb ?ca" by blast
    have "win_prefix (ws' ! j) = take (MAX_PREFIX_LEN - 1) (take ?lb ?cb @ decimal (k + 1))"
      unfolding pj sequence_of_def snprintf_prefix_def using False by (rule if_not_P)
    then have "win_prefix (ws' ! j) = take (MAX_PREFIX_LEN - 1) (take lb ?cb @ decimal (k + 1))"
      unfolding hb .
    then show ?thesis unfolding pi
      using la lb da db by (simp only: not_prefix_of_numbered not_False_eq_True)
  qed
qed

theorem single_instance_sequence_not_prefix_witness:
  "compute_prefixes
     [\<lparr>win_id = 1, wm_class = ''zen'', title = ''t'', wm_class_lower = ''zen'', win_prefix = ''''\<rparr>,
      \<lparr>win_id = 2, wm_class = ''do'', title = ''t'', wm_class_lower = ''do'', win_prefix = ''''\<rparr>,
      \<lparr>win_id = 3, wm_class = ''Do'', title = ''t'', wm_class_lower = ''do'', win_prefix = ''''\<rparr>,
      \<lparr>win_id = 4, wm_class = ''dolphin'', title = ''t'', wm_class_lower = ''dolphin'', win_prefix = ''''\<rparr>]
   = Inr
     [\<lparr>win_id = 1, wm_class = ''zen'', title = ''t'', wm_class_lower = ''zen'', win_prefix = ''z''\<rparr>,
      \<lparr>win_id = 2, wm_class = ''do'', title = ''t'', wm_class_lower = ''do'', win_prefix = ''do1''\<rparr>,
      \<lparr>win_id = 3, wm_class = ''Do'', title = ''t'', wm_class_lower = ''do'', win_prefix = ''do2''\<rparr>,
      \<lparr>win_id = 4, wm_class = ''dolphin'', title = ''t'', wm_class_lower = ''dolphin'', win_prefix = ''dol''\<rparr>]
   \<and> \<not> prefix
       (win_prefix ([\<lparr>win_id = 1, wm_class = ''zen'', title = ''t'', wm_class_lower = ''zen'', win_prefix = ''z''\<rparr>,
      \<lparr>win_id = 2, wm_class = ''do'', title = ''t'', wm_class_lower = ''do'', win_prefix = ''do1''\<rparr>,
      \<lparr>win_id = 3, wm_class = ''Do'', title = ''t'', wm_class_lower = ''do'', win_prefix = ''do2''\<rparr>,
      \<lparr>win_id = 4, wm_class = ''dolphin'', title = ''t'', wm_class_lower = ''dolphin'', win_prefix = ''dol''\<rparr>] ! 0))
       (win_prefix ([\<lparr>win_id = 1, wm_class = ''zen'', title = ''t'', wm_class_lower = ''zen'', win_prefix = ''z''\<rparr>,
      \<lparr>win_id = 2, wm_class = ''do'', title = ''t'', wm_class_lower = ''do'', win_prefix = ''do1''\<rparr>,
      \<lparr>win_id = 3, wm_class = ''Do'', title = ''t'', wm_class_lower = ''do'', win_prefix = ''do2''\<rparr>,
      \<lparr>win_id = 4, wm_class = ''dolphin'', title = ''t'', wm_class_lower = ''dolphin'', win_prefix = ''dol''\<rparr>] ! 2))"
proof -
  let ?ws = "[\<lparr>win_id = 1, wm_class = ''zen'', title = ''t'', wm_class_lower = ''zen'', win_prefix = ''''\<rparr>,
      \<lparr>win_id = 2, wm_class = ''do'', title = ''t'', wm_class_lower = ''do'', win_prefix = ''''\<rparr>,
      \<lparr>win_id = 3, wm_class = ''Do'', title = ''t'', wm_class_lower = ''do'', win_prefix = ''''\<rparr>,
      \<lparr>win_id = 4, wm_class = ''dolphin'', title = ''t'', wm_class_lower = ''dolphin'', win_prefix = ''''\<rparr>]"
  let ?ws' = "[\<lparr>win_id = 1, wm_class = ''zen'', title = ''t'', wm_class_lower = ''zen'', win_prefix = ''z''\<rparr>,
      \<lparr>win_id = 2, wm_class = ''do'', title = ''t'', wm_class_lower = ''do'', win_prefix = ''do1''\<rparr>,
      \<lparr>win_id = 3, wm_class = ''Do'', title = ''t'', wm_class_lower = ''do'', win_prefix = ''do2''\<rparr>,
      \<lparr>win_id = 4, wm_class = ''dolphin'', title = ''t'', wm_class_lower = ''dolphin'', win_prefix = ''dol''\<rparr>]"
  have cp: "compute_prefixes ?ws = Inr ?ws'" by code_simp
  have a: "0 < length (group_windows ?ws 0 [])" by code_simp
  have wa: "window_indices (group_windows ?ws 0 [] ! 0) = [0]" by code_simp
  have b: "1 < length (group_windows ?ws 0 [])" by code_simp
  have j: "2 \<in> set (window_indices (group_windows ?ws 0 [] ! 1))" by code_simp
  have na: "\<not> prefix (class_lower (group_windows ?ws 0 [] ! 0))
      (class_lower (group_windows ?ws 0 [] ! 1))" by code_simp
  have nb: "app_count (group_windows ?ws 0 [] ! 1) = 1
      \<or> \<not> prefix (class_lower (group_windows ?ws 0 [] ! 1))
                   (class_lower (group_windows ?ws 0 [] ! 0))" by code_simp
  from single_instance_sequence_not_prefix [OF cp a wa b j na nb]
  have "\<not> prefix (win_prefix (?ws' ! 0)) (win_prefix (?ws' ! 2))" .
  with cp show ?thesis by (rule conjI)
qed

text \<open>
  The claim as worded fails for two windows of the classes \<^verbatim>\<open>do\<close> and \<^verbatim>\<open>dolphin\<close>: each
  is a group of its own, no length up to 2 tells \<^verbatim>\<open>do\<close> from \<^verbatim>\<open>dolphin\<close>, so \<^verbatim>\<open>do\<close> gets
  its whole name, which is a strict prefix of the sequence \<^verbatim>\<open>dol\<close> of the other group.
\<close>

theorem single_instance_prefix_counterexample:
  "group_windows
     [\<lparr>win_id = 1, wm_class = ''do'', title = ''t'', wm_class_lower = ''do'', win_prefix = ''''\<rparr>,
      \<lparr>win_id = 2, wm_class = ''dolphin'', title = ''t'', wm_class_lower = ''dolphin'', win_prefix = ''''\<rparr>] 0 []
   = [\<lparr>class_lower = ''do'', window_indices = [0]\<rparr>,
      \<lparr>class_lower = ''dolphin'', window_indices = [1]\<rparr>]
   \<and> compute_prefixes
     [\<lparr>win_id = 1, wm_class = ''do'', title = ''t'', wm_class_lower = ''do'', win_prefix = ''''\<rparr>,
      \<lparr>win_id = 2, wm_class = ''dolphin'', title = ''t'', wm_class_lower = ''dolphin'', win_prefix = ''''\<rparr>]
   = Inr
     [\<lparr>win_id = 1, wm_class = ''do'', title = ''t'', wm_class_lower = ''do'', win_prefix = ''do''\<rparr>,
      \<lparr>win_id = 2, wm_class = ''dolphin'', title = ''t'', wm_class_lower = ''dolphin'', win_prefix = ''dol''\<rparr>]
   \<and> strict_prefix
       (win_prefix ([\<lparr>win_id = 1, wm_class = ''do'', title = ''t'', wm_class_lower = ''do'', win_prefix = ''do''\<rparr>,
      \<lparr>win_id = 2, wm_class = ''dolphin'', title = ''t'', wm_class_lower = ''dolphin'', win_prefix = ''dol''\<rparr>] ! 0))
       (win_prefix ([\<lparr>win_id = 1, wm_class = ''do'', title = ''t'', wm_class_lower = ''do'', win_prefix = ''do''\<rparr>,
      \<lparr>win_id = 2, wm_class = ''dolphin'', title = ''t'', wm_class_lower = ''dolphin'', win_prefix = ''dol''\<rparr>] ! 1))"
  by code_simp

text \<open>
  The condition on a second group with several windows cannot be dropped. Ten windows
  of the class \<^verbatim>\<open>d\<close> and one of the class \<^verbatim>\<open>d1\<close>: the name \<^verbatim>\<open>d\<close> is a prefix of \<^verbatim>\<open>d1\<close>, so
  its windows get \<^verbatim>\<open>d1\<close> to \<^verbatim>\<open>d10\<close>, and the sequence \<^verbatim>\<open>d1\<close> of the single window of \<^verbatim>\<open>d1\<close>
  is equal to the first and a strict prefix of the last of them.
\<close>

lemma numbered_sequence_collision:
  "map_sum id (map win_prefix) (compute_prefixes
     [\<lparr>win_id = 1, wm_class = ''d'', title = ''t'', wm_class_lower = ''d'', win_prefix = ''''\<rparr>,
      \<lparr>win_id = 1, wm_class = ''d'', title = ''t'', wm_class_lower = ''d'', win_prefix = ''''\<rparr>,
      \<lparr>win_id = 1, wm_class = ''d'', title = ''t'', wm_class_lower = ''d'', win_prefix = ''''\<rparr>,
      \<lparr>win_id = 1, wm_class = ''d'', title = ''t'', wm_class_lower = ''d'', win_prefix = ''''\<rparr>,
      \<lparr>win_id = 1, wm_class = ''d'', title = ''t'', wm_class_lower = ''d'', win_prefix = ''''\<rparr>,
      \<lparr>win_id = 1, wm_class = ''d'', title = ''t'', wm_class_lower = ''d'', win_prefix = ''''\<rparr>,
      \<lparr>win_id = 1, wm_class = ''d'', title = ''t'', wm_class_lower = ''d'', win_prefix = ''''\<rparr>,
      \<lparr>win_id = 1, wm_class = ''d'', title = ''t'', wm_class_lower = ''d'', win_prefix = ''''\<rparr>,
      \<lparr>win_id = 1, wm_class = ''d'', title = ''t'', wm_class_lower = ''d'', win_prefix = ''''\<rparr>,
      \<lparr>win_id = 1, wm_class = ''d'', title = ''t'', wm_class_lower = ''d'', win_prefix = ''''\<rparr>,
      \<lparr>win_id = 2, wm_class = ''d1'', title = ''t'', wm_class_lower = ''d1'', win_prefix = ''''\<rparr>])
   = Inr [''d1'', ''d2'', ''d3'', ''d4'', ''d5'', ''d6'', ''d7'', ''d8'', ''d9'', ''d10'', ''d1'']
   \<and> strict_prefix ''d1'' ''d10''"
  by code_simp

section \<open>The windows of a group\<close>

lemma of_char_int_eq_0_iff: "(of_char c :: int) = 0 \<longleftrightarrow> c = NUL"
proof -
  have "(of_char c :: int) = int (of_char c)" by (simp add: of_nat_of_char)
  then show ?thesis by (simp add: of_char_eq_0_iff)
qed

lemma strcmp_eq_0_D:
  "strcmp s t = 0 \<Longrightarrow> NUL \<notin> set s \<Longrightarrow> NUL \<notin> set t \<Longrightarrow> s = t"
proof (induction s t rule: strcmp.induct)
  case 1
  then show ?case by simp
next
  case (2 b s2)
  then show ?case by (simp add: of_char_int_eq_0_iff)
next
  case (3 a s1)
  then show ?case by (simp add: of_char_int_eq_0_iff)
next
  case (4 a s1 b s2)
  then show ?case by (auto split: if_splits)
qed

lemma find_app_same_classes:
  "map class_lower apps' = map class_lower apps \<Longrightarrow> find_app apps' cls = find_app apps cls"
proof (induction apps arbitrary: apps')
  case Nil
  then show ?case by simp
next
  case (Cons g apps)
  from Cons.prems obtain g' rest where ap: "apps' = g' # rest"
    and g: "class_lower g' = class_lower g" and r: "map class_lower rest = map class_lower apps"
    by (cases apps') auto
  from Cons.IH [OF r] show ?case unfolding ap using g by simp
qed

lemma find_app_append:
  "find_app (apps @ [g]) cls =
     (case find_app apps cls of
        Some a \<Rightarrow> Some a
      | None \<Rightarrow> if strcmp (class_lower g) cls = 0 then Some (length apps) else None)"
  by (induction apps) (auto split: option.splits)

lemma find_app_not_None:
  "a < length apps \<Longrightarrow> strcmp (class_lower (apps ! a)) cls = 0 \<Longrightarrow> find_app apps cls \<noteq> None"
  using find_app_None by blast

lemma groups_cover_step:
  assumes cov: "groups_cover apps (done @ w # rest) (length done)"
  shows "groups_cover
      (case find_app apps (wm_class_lower w) of
         Some found \<Rightarrow>
           apps[found := (apps ! found)\<lparr>window_indices :=
                  window_indices (apps ! found) @ [length done]\<rparr>]
       | None \<Rightarrow>
           if length apps < MAX_APPS
           then apps @ [\<lparr>class_lower = wm_class_lower w, window_indices = [length done]\<rparr>]
           else apps)
      (done @ w # rest) (Suc (length done))"
proof -
  let ?ws = "done @ w # rest" and ?n = "length done"
  have wn: "?ws ! ?n = w" by simp
  have mem: "strcmp (class_lower (apps ! a)) (wm_class_lower (?ws ! i)) = 0"
    if "a < length apps" "i \<in> set (window_indices (apps ! a))" for a i
    using cov that unfolding groups_cover_def by blast
  have fnd: "i \<in> set (window_indices (apps ! a))"
    if "i < ?n" "find_app apps (wm_class_lower (?ws ! i)) = Some a" for a i
    using cov that unfolding groups_cover_def by blast
  have full: "MAX_APPS \<le> length apps"
    if "i < ?n" "find_app apps (wm_class_lower (?ws ! i)) = None" for i
    using cov that unfolding groups_cover_def by blast
  show ?thesis
  proof (cases "find_app apps (wm_class_lower w)")
    case (Some f)
    let ?apps = "apps[f := (apps ! f)\<lparr>window_indices := window_indices (apps ! f) @ [?n]\<rparr>]"
    have f: "f < length apps" and fz: "strcmp (class_lower (apps ! f)) (wm_class_lower w) = 0"
      using find_app_Some [OF Some] by simp_all
    have cl: "map class_lower ?apps = map class_lower apps"
      using f by (simp add: list_eq_iff_nth_eq nth_list_update)
    have fa: "find_app ?apps cls = find_app apps cls" for cls
      using cl by (rule find_app_same_classes)
    have nth: "?apps ! a = (if a = f then (apps ! f)\<lparr>window_indices := window_indices (apps ! f) @ [?n]\<rparr>
        else apps ! a)" if "a < length apps" for a
      using that by (simp add: nth_list_update)
    have "groups_cover ?apps ?ws (Suc ?n)"
      unfolding groups_cover_def
    proof (intro conjI allI impI ballI)
      fix a i assume a: "a < length ?apps" and i: "i \<in> set (window_indices (?apps ! a))"
      then have a': "a < length apps" by simp
      show "strcmp (class_lower (?apps ! a)) (wm_class_lower (?ws ! i)) = 0"
      proof (cases "a = f \<and> i = ?n")
        case True
        then show ?thesis using fz f by simp
      next
        case False
        then have "i \<in> set (window_indices (apps ! a))" using i a' by (auto simp: nth split: if_splits)
        from mem [OF a' this] show ?thesis using a' by (auto simp: nth)
      qed
    next
      fix i a assume i: "i < Suc ?n"
        and s: "find_app ?apps (wm_class_lower (?ws ! i)) = Some a"
      then have s': "find_app apps (wm_class_lower (?ws ! i)) = Some a" by (simp only: fa)
      then have a': "a < length apps" using find_app_Some by blast
      show "i \<in> set (window_indices (?apps ! a))"
      proof (cases "i = ?n")
        case True
        then have "a = f" using s' Some by simp
        then show ?thesis using True f by simp
      next
        case False
        then have "i < ?n" using i by simp
        from fnd [OF this s'] show ?thesis using a' by (auto simp: nth)
      qed
    next
      fix i assume i: "i < Suc ?n"
        and s: "find_app ?apps (wm_class_lower (?ws ! i)) = None"
      then have s': "find_app apps (wm_class_lower (?ws ! i)) = None" by (simp only: fa)
      then have "i \<noteq> ?n" using Some by auto
      then have "i < ?n" using i by simp
      from full [OF this s'] show "MAX_APPS \<le> length ?apps" by simp
    qed
    then show ?thesis using Some by simp
  next
    case None
    show ?thesis
    proof (cases "length apps < MAX_APPS")
      case True
      let ?g = "\<lparr>class_lower = wm_class_lower w, window_indices = [?n]\<rparr>"
      let ?apps = "apps @ [?g]"
      have old: "find_app apps (wm_class_lower (?ws ! i)) \<noteq> None" if "i < ?n" for i
        using full [OF that] True by auto
      have "groups_cover ?apps ?ws (Suc ?n)"
        unfolding groups_cover_def
      proof (intro conjI allI impI ballI)
        fix a i assume a: "a < length ?apps" and i: "i \<in> set (window_indices (?apps ! a))"
        show "strcmp (class_lower (?apps ! a)) (wm_class_lower (?ws ! i)) = 0"
        proof (cases "a < length apps")
          case True
          then show ?thesis using mem [of a i] i by (simp add: nth_append)
        next
          case False
          then have "a = length apps" using a by simp
          then show ?thesis using i by (simp add: strcmp_refl)
        qed
      next
        fix i a assume i: "i < Suc ?n"
          and s: "find_app ?apps (wm_class_lower (?ws ! i)) = Some a"
        show "i \<in> set (window_indices (?apps ! a))"
        proof (cases "i = ?n")
          case True
          then have "a = length apps" using s None by (simp add: find_app_append strcmp_refl)
          then show ?thesis using True by simp
        next
          case False
          then have lt: "i < ?n" using i by simp
          then obtain a' where a': "find_app apps (wm_class_lower (?ws ! i)) = Some a'"
            using old by blast
          then have "a = a'" using s by (simp add: find_app_append)
          moreover have "a' < length apps" using a' find_app_Some by blast
          ultimately show ?thesis using fnd [OF lt a'] by (simp add: nth_append)
        qed
      next
        fix i assume i: "i < Suc ?n"
          and s: "find_app ?apps (wm_class_lower (?ws ! i)) = None"
        have "i \<noteq> ?n" using s by (auto simp: find_app_append strcmp_refl split: option.splits)
        then have "i < ?n" using i by simp
        then have False using old [of i] s by (auto simp: find_app_append split: option.splits)
        then show "MAX_APPS \<le> length ?apps" ..
      qed
      then show ?thesis using None True by simp
    next
      case False
      have "groups_cover apps ?ws (Suc ?n)"
        unfolding groups_cover_def
      proof (intro conjI allI impI ballI)
        fix a i assume "a < length apps" "i \<in> set (window_indices (apps ! a))"
        then show "strcmp (class_lower (apps ! a)) (wm_class_lower (?ws ! i)) = 0" by (rule mem)
      next
        fix i a assume i: "i < Suc ?n" and s: "find_app apps (wm_class_lower (?ws ! i)) = Some a"
        then have "i \<noteq> ?n" using None by auto
        then have "i < ?n" using i by simp
        then show "i \<in> set (window_indices (apps ! a))" using s by (rule fnd)
      next
        fix i assume "i < Suc ?n" "find_app apps (wm_class_lower (?ws ! i)) = None"
        show "MAX_APPS \<le> length apps" using False by simp
      qed
      then show ?thesis using None False by simp
    qed
  qed
qed

lemma group_windows_cover:
  "groups_cover apps (done @ rest) (length done)
   \<Longrightarrow> groups_cover (group_windows rest (length done) apps) (done @ rest) (length done + length rest)"
proof (induction rest arbitrary: "done" apps)
  case Nil
  then show ?case by simp
next
  case (Cons w rest)
  let ?apps = "case find_app apps (wm_class_lower w) of
         Some found \<Rightarrow>
           apps[found := (apps ! found)\<lparr>window_indices :=
                  window_indices (apps ! found) @ [length done]\<rparr>]
       | None \<Rightarrow>
           if length apps < MAX_APPS
           then apps @ [\<lparr>class_lower = wm_class_lower w, window_indices = [length done]\<rparr>]
           else apps"
  have "groups_cover ?apps (done @ w # rest) (Suc (length done))"
    using Cons.prems by (rule groups_cover_step)
  then have "groups_cover ?apps ((done @ [w]) @ rest) (length (done @ [w]))" by simp
  then have "groups_cover (group_windows rest (length (done @ [w])) ?apps) ((done @ [w]) @ rest)
      (length (done @ [w]) + length rest)"
    by (rule Cons.IH)
  moreover have "group_windows (w # rest) (length done) apps
      = group_windows rest (length (done @ [w])) ?apps"
    by (simp split: option.splits)
  ultimately show ?case by simp
qed

lemma groups_cover_initial: "groups_cover (group_windows windows 0 []) windows (length windows)"
  using group_windows_cover [of "[]" "[]" windows] by (simp add: groups_cover_def)

lemma distinct_singleton:
  assumes "distinct xs" and "set xs = {x}"
  shows "xs = [x]"
proof (cases xs)
  case Nil
  then show ?thesis using assms(2) by simp
next
  case (Cons y ys)
  then have y: "y = x" using assms(2) by auto
  have "set ys \<subseteq> {x}" "x \<notin> set ys" using assms Cons y by auto
  then have "ys = []" by (cases ys) auto
  with Cons y show ?thesis by simp
qed

lemma list_all_upt: "list_all P [0..<n] \<longleftrightarrow> (\<forall>i<n. P i)"
  by (auto simp: list_all_iff)

lemma single_instance_iff:
  "single_instance windows i \<longleftrightarrow>
     (\<forall>k<length windows. k \<noteq> i \<longrightarrow> wm_class_lower (windows ! k) \<noteq> wm_class_lower (windows ! i))"
  by (auto simp: single_instance_def list_all_iff)

text \<open>
  For class names without a NUL byte: the windows of a group are the windows with the
  class name of the group, and a window whose class name has a group is in that group.
\<close>

lemma member_class:
  assumes nul: "\<forall>w\<in>set ws. NUL \<notin> set (wm_class_lower w)"
    and a: "a < length (group_windows ws 0 [])"
    and i: "i \<in> set (window_indices (group_windows ws 0 [] ! a))"
  shows "i < length ws \<and> wm_class_lower (ws ! i) = class_lower (group_windows ws 0 [] ! a)"
proof -
  let ?G = "group_windows ws 0 []"
  have lt: "i < length ws" using groups_ok_initial [of ws] a i unfolding groups_ok_def by blast
  have "strcmp (class_lower (?G ! a)) (wm_class_lower (ws ! i)) = 0"
    using groups_cover_initial [of ws] a i unfolding groups_cover_def by blast
  moreover have "NUL \<notin> set (class_lower (?G ! a))"
    using nul a by (rule group_windows_classes_NUL_free)
  moreover have "NUL \<notin> set (wm_class_lower (ws ! i))" using nul lt by simp
  ultimately have "class_lower (?G ! a) = wm_class_lower (ws ! i)" by (rule strcmp_eq_0_D)
  with lt show ?thesis by simp
qed

lemma group_of_window:
  assumes nul: "\<forall>w\<in>set ws. NUL \<notin> set (wm_class_lower w)"
    and i: "i < length ws" and h: "has_group ws i"
  shows "\<exists>a<length (group_windows ws 0 []).
      i \<in> set (window_indices (group_windows ws 0 [] ! a))
      \<and> class_lower (group_windows ws 0 [] ! a) = wm_class_lower (ws ! i)"
proof -
  let ?G = "group_windows ws 0 []"
  from h obtain a where fa: "find_app ?G (wm_class_lower (ws ! i)) = Some a"
    by (auto simp: has_group_def)
  then have a: "a < length ?G" using find_app_Some by blast
  have m: "i \<in> set (window_indices (?G ! a))"
    using groups_cover_initial [of ws] i fa unfolding groups_cover_def by blast
  from member_class [OF nul a m] a m show ?thesis by auto
qed

lemma same_class_same_group:
  assumes nul: "\<forall>w\<in>set ws. NUL \<notin> set (wm_class_lower w)"
    and a: "a < length (group_windows ws 0 [])" and k: "k < length ws"
    and c: "wm_class_lower (ws ! k) = class_lower (group_windows ws 0 [] ! a)"
  shows "k \<in> set (window_indices (group_windows ws 0 [] ! a))"
proof -
  let ?G = "group_windows ws 0 []"
  have "strcmp (class_lower (?G ! a)) (wm_class_lower (ws ! k)) = 0" using c by (simp add: strcmp_refl)
  with a have "find_app ?G (wm_class_lower (ws ! k)) \<noteq> None" by (rule find_app_not_None)
  then have "has_group ws k" by (simp add: has_group_def)
  with nul k obtain b where b: "b < length ?G" and m: "k \<in> set (window_indices (?G ! b))"
    and cb: "class_lower (?G ! b) = wm_class_lower (ws ! k)"
    using group_of_window by blast
  have "b = a"
  proof (rule ccontr)
    assume "b \<noteq> a"
    with b a have "class_lower (?G ! b) \<noteq> class_lower (?G ! a)" by (intro group_classes_differ)
    then show False using cb c by simp
  qed
  with m show ?thesis by simp
qed

lemma single_group_window:
  assumes nul: "\<forall>w\<in>set ws. NUL \<notin> set (wm_class_lower w)"
    and a: "a < length (group_windows ws 0 [])"
    and w: "window_indices (group_windows ws 0 [] ! a) = [i]"
  shows "i < length ws \<and> single_instance ws i
    \<and> wm_class_lower (ws ! i) = class_lower (group_windows ws 0 [] ! a)"
proof -
  let ?G = "group_windows ws 0 []"
  have mi: "i \<in> set (window_indices (?G ! a))" using w by simp
  note ci = member_class [OF nul a mi]
  have "k = i" if "k < length ws" "wm_class_lower (ws ! k) = wm_class_lower (ws ! i)" for k
  proof -
    have "wm_class_lower (ws ! k) = class_lower (?G ! a)" using that(2) ci by simp
    with nul a that(1) have "k \<in> set (window_indices (?G ! a))" by (rule same_class_same_group)
    then show ?thesis using w by simp
  qed
  then have "single_instance ws i" unfolding single_instance_iff by blast
  with ci show ?thesis by simp
qed

lemma group_of_single_window:
  assumes nul: "\<forall>w\<in>set ws. NUL \<notin> set (wm_class_lower w)"
    and i: "i < length ws" and s: "single_instance ws i" and h: "has_group ws i"
  shows "\<exists>a<length (group_windows ws 0 []).
      window_indices (group_windows ws 0 [] ! a) = [i]
      \<and> class_lower (group_windows ws 0 [] ! a) = wm_class_lower (ws ! i)"
proof -
  let ?G = "group_windows ws 0 []"
  from group_of_window [OF nul i h] obtain a where a: "a < length ?G"
    and m: "i \<in> set (window_indices (?G ! a))"
    and c: "class_lower (?G ! a) = wm_class_lower (ws ! i)" by blast
  have "k = i" if "k \<in> set (window_indices (?G ! a))" for k
  proof -
    from member_class [OF nul a that]
    have kl: "k < length ws" and kc: "wm_class_lower (ws ! k) = class_lower (?G ! a)"
      by (rule conjunct1, rule conjunct2)
    from kc c have "wm_class_lower (ws ! k) = wm_class_lower (ws ! i)" by (rule trans)
    with kl show ?thesis using s unfolding single_instance_iff by blast
  qed
  with m have st: "set (window_indices (?G ! a)) = {i}" by blast
  have di: "distinct (window_indices (?G ! a))"
    using groups_ok_initial [of ws] a unfolding groups_ok_def by blast
  from di st have "window_indices (?G ! a) = [i]" by (rule distinct_singleton)
  with a c show ?thesis by blast
qed

lemma no_group_no_member:
  assumes "\<not> has_group ws j" and "a < length (group_windows ws 0 [])"
  shows "j \<notin> set (window_indices (group_windows ws 0 [] ! a))"
proof
  let ?G = "group_windows ws 0 []"
  assume "j \<in> set (window_indices (?G ! a))"
  then have "strcmp (class_lower (?G ! a)) (wm_class_lower (ws ! j)) = 0"
    using groups_cover_initial [of ws] assms(2) unfolding groups_cover_def by blast
  with assms(2) have "find_app ?G (wm_class_lower (ws ! j)) \<noteq> None" by (rule find_app_not_None)
  then show False using assms(1) by (simp add: has_group_def)
qed

lemma compute_prefixes_untouched:
  assumes "compute_prefixes ws = Inr ws'" and "\<not> has_group ws j"
  shows "ws' ! j = ws ! j"
proof -
  let ?G = "group_windows ws 0 []"
  have loop: "prefix_loop ?G [0..<length ?G] ws = Inr ws'"
    using assms(1) by (simp add: compute_prefixes_def Let_def)
  have "\<forall>a\<in>set [0..<length ?G]. j \<notin> set (window_indices (?G ! a))"
    using no_group_no_member [OF assms(2)] by simp
  moreover from prefix_loop_nth [OF groups_ok_initial _ _ loop]
  have "\<forall>j. (\<forall>a\<in>set [0..<length ?G]. j \<notin> set (window_indices (?G ! a))) \<longrightarrow> ws' ! j = ws ! j"
    by simp
  ultimately show ?thesis by blast
qed

text \<open>
  A window whose class name has no group was left out because all \<^verbatim>\<open>MAX_APPS\<close> groups
  were taken by other class names.
\<close>

lemma no_group_many_classes:
  assumes i: "i < length ws" and h: "\<not> has_group ws i"
  shows "MAX_APPS < card (wm_class_lower ` set ws)"
proof -
  let ?G = "group_windows ws 0 []"
  have none: "find_app ?G (wm_class_lower (ws ! i)) = None" using h by (simp add: has_group_def)
  have full: "MAX_APPS \<le> length ?G"
    using groups_cover_initial [of ws] i none unfolding groups_cover_def by blast
  have d: "distinct (map class_lower ?G)"
    unfolding distinct_conv_nth using group_classes_differ [of _ ws] by simp
  have sub: "set (map class_lower ?G) \<subseteq> wm_class_lower ` set ws"
  proof
    fix c assume "c \<in> set (map class_lower ?G)"
    then obtain a where "a < length ?G" "c = class_lower (?G ! a)"
      by (auto simp: in_set_conv_nth)
    then show "c \<in> wm_class_lower ` set ws" using group_windows_classes [of a ws 0 "[]"] by simp
  qed
  have notin: "wm_class_lower (ws ! i) \<notin> set (map class_lower ?G)"
  proof
    assume "wm_class_lower (ws ! i) \<in> set (map class_lower ?G)"
    then obtain a where a: "a < length ?G" and "class_lower (?G ! a) = wm_class_lower (ws ! i)"
      by (auto simp: in_set_conv_nth)
    then have "strcmp (class_lower (?G ! a)) (wm_class_lower (ws ! i)) = 0"
      by (simp add: strcmp_refl)
    with find_app_None [OF none a] show False by simp
  qed
  have "insert (wm_class_lower (ws ! i)) (set (map class_lower ?G)) \<subseteq> wm_class_lower ` set ws"
    using sub i by auto
  then have "card (insert (wm_class_lower (ws ! i)) (set (map class_lower ?G)))
      \<le> card (wm_class_lower ` set ws)"
    by (intro card_mono) auto
  moreover have "card (insert (wm_class_lower (ws ! i)) (set (map class_lower ?G))) = Suc (length ?G)"
    using notin distinct_card [OF d] by simp
  ultimately show ?thesis using full by simp
qed

section \<open>Windows that are the only one of their application\<close>

lemma single_groups_differ:
  assumes "compute_prefixes ws = Inr ws'"
    and "a < length (group_windows ws 0 [])" and "b < length (group_windows ws 0 [])"
    and "a \<noteq> b"
    and "window_indices (group_windows ws 0 [] ! a) = [i]"
    and "window_indices (group_windows ws 0 [] ! b) = [j]"
  shows "win_prefix (ws' ! i) \<noteq> win_prefix (ws' ! j)"
proof
  let ?apps = "group_windows ws 0 []"
  let ?ca = "class_lower (?apps ! a)" and ?cb = "class_lower (?apps ! b)"
  let ?la = "find_prefix_len ?apps a 1" and ?lb = "find_prefix_len ?apps b 1"
  assume "win_prefix (ws' ! i) = win_prefix (ws' ! j)"
  then have eq: "take ?la ?ca = take ?lb ?cb"
    using single_sequence [OF assms(1,2,5)] single_sequence [OF assms(1,3,6)] by simp
  have neq: "?ca \<noteq> ?cb" using assms(2,3,4) by (rule group_classes_differ)
  consider (a_found) "?la \<le> strlen ?ca" | (b_found) "?lb \<le> strlen ?cb"
    | (none) "strlen ?ca < ?la" "strlen ?cb < ?lb"
    by linarith
  then show False
  proof cases
    case a_found
    then have "is_unique ?apps a ?la" by (rule find_prefix_len_unique)
    then have "take ?la ?ca \<noteq> take ?la ?cb"
      using assms(3,4) by (intro unique_takes_differ) auto
    with a_found have "\<not> prefix (take ?la ?ca) (take ?lb ?cb)" by (rule not_prefix_of_plain)
    then show False using eq by simp
  next
    case b_found
    then have "is_unique ?apps b ?lb" by (rule find_prefix_len_unique)
    then have "take ?lb ?cb \<noteq> take ?lb ?ca"
      using assms(2,4) by (intro unique_takes_differ) auto
    with b_found have "\<not> prefix (take ?lb ?cb) (take ?la ?ca)" by (rule not_prefix_of_plain)
    then show False using eq by simp
  next
    case none
    then show False using eq neq by simp
  qed
qed

lemma single_group_sequence_nonempty:
  assumes "compute_prefixes ws = Inr ws'" and "a < length (group_windows ws 0 [])"
    and "window_indices (group_windows ws 0 [] ! a) = [i]"
    and "class_lower (group_windows ws 0 [] ! a) \<noteq> []"
  shows "win_prefix (ws' ! i) \<noteq> []"
proof -
  have "1 \<le> find_prefix_len (group_windows ws 0 []) a 1" by (rule find_prefix_len_ge)
  then show ?thesis using single_sequence [OF assms(1-3)] assms(4) by simp
qed

text \<open>
  C3, as the code has it. Take the windows \<^verbatim>\<open>discover_windows\<close> stores, and call a window
  single when no other window has its class name (in lower case). The assignment
  stays inside the 32 bytes of the sequences, and so gives a table, when the class
  name of every single window is shorter than 31 characters. In every table it gives,
  two different single windows have different sequences as long as the class name of
  at least one of them has got one of the \<^verbatim>\<open>MAX_APPS\<close> (128) groups; and every class
  name has got a group when the windows have at most 128 different class names.
\<close>

theorem single_instance_sequences_injective:
  assumes "discover_windows store_atsw clients = (n, ws)"
  shows "((\<forall>i<length ws. single_instance ws i
             \<longrightarrow> strlen (wm_class_lower (ws ! i)) < MAX_PREFIX_LEN - 1)
          \<longrightarrow> (\<exists>ws'. compute_prefixes ws = Inr ws'))
   \<and> (\<forall>ws' i j. compute_prefixes ws = Inr ws' \<and> i < length ws \<and> j < length ws \<and> i \<noteq> j
          \<and> single_instance ws i \<and> single_instance ws j \<and> (has_group ws i \<or> has_group ws j)
        \<longrightarrow> win_prefix (ws' ! i) \<noteq> win_prefix (ws' ! j))
   \<and> (card (wm_class_lower ` set ws) \<le> MAX_APPS \<longrightarrow> (\<forall>i<length ws. has_group ws i))"
proof -
  let ?G = "group_windows ws 0 []"
  have dc: "wm_class_lower w \<noteq> [] \<and> NUL \<notin> set (wm_class_lower w) \<and> win_prefix w = []"
    if "w \<in> set ws" for w
    using discovered_classes [OF assms that] by blast
  have nul: "\<forall>w\<in>set ws. NUL \<notin> set (wm_class_lower w)" using dc by simp
  have completes: "\<exists>ws'. compute_prefixes ws = Inr ws'"
    if short: "\<forall>i<length ws. single_instance ws i
        \<longrightarrow> strlen (wm_class_lower (ws ! i)) < MAX_PREFIX_LEN - 1"
  proof -
    have "find_prefix_len ?G a 1 < MAX_PREFIX_LEN"
      if a: "a < length ?G" and one: "app_count (?G ! a) = 1" for a
    proof -
      from one obtain i where w: "window_indices (?G ! a) = [i]"
        by (cases "window_indices (?G ! a)") auto
      from single_group_window [OF nul a w] short
      have "strlen (class_lower (?G ! a)) < MAX_PREFIX_LEN - 1" by auto
      moreover have "find_prefix_len ?G a 1 \<le> Suc (strlen (class_lower (?G ! a)))"
        by (rule find_prefix_len_le) simp
      ultimately show ?thesis by simp
    qed
    then show ?thesis unfolding compute_prefixes_ok_iff by simp
  qed
  have mixed: "win_prefix (ws' ! i) \<noteq> win_prefix (ws' ! j)"
    if cp: "compute_prefixes ws = Inr ws'" and i: "i < length ws" and j: "j < length ws"
      and si: "single_instance ws i" and hi: "has_group ws i" and nj: "\<not> has_group ws j"
    for ws' i j
  proof -
    from group_of_single_window [OF nul i si hi] obtain a where a: "a < length ?G"
      and w: "window_indices (?G ! a) = [i]"
      and c: "class_lower (?G ! a) = wm_class_lower (ws ! i)" by blast
    have "class_lower (?G ! a) \<noteq> []" using c dc [of "ws ! i"] i by simp
    with cp a w have "win_prefix (ws' ! i) \<noteq> []" by (rule single_group_sequence_nonempty)
    moreover have "win_prefix (ws' ! j) = []"
      using compute_prefixes_untouched [OF cp nj] dc [of "ws ! j"] j by simp
    ultimately show ?thesis by simp
  qed
  have differ: "win_prefix (ws' ! i) \<noteq> win_prefix (ws' ! j)"
    if cp: "compute_prefixes ws = Inr ws'" and i: "i < length ws" and j: "j < length ws"
      and ne: "i \<noteq> j" and si: "single_instance ws i" and sj: "single_instance ws j"
      and h: "has_group ws i \<or> has_group ws j"
    for ws' i j
  proof (cases "has_group ws i \<and> has_group ws j")
    case True
    from group_of_single_window [OF nul i si] True obtain a where a: "a < length ?G"
      and wa: "window_indices (?G ! a) = [i]" by blast
    from group_of_single_window [OF nul j sj] True obtain b where b: "b < length ?G"
      and wb: "window_indices (?G ! b) = [j]" by blast
    have "a \<noteq> b" using wa wb ne by auto
    with cp a b show ?thesis using wa wb by (rule single_groups_differ)
  next
    case False
    with h consider "has_group ws i" "\<not> has_group ws j" | "has_group ws j" "\<not> has_group ws i"
      by blast
    then show ?thesis
    proof cases
      case 1
      with cp i j si show ?thesis by (intro mixed)
    next
      case 2
      with cp i j sj have "win_prefix (ws' ! j) \<noteq> win_prefix (ws' ! i)" by (intro mixed)
      then show ?thesis by simp
    qed
  qed
  have grouped: "has_group ws i" if "card (wm_class_lower ` set ws) \<le> MAX_APPS" "i < length ws" for i
    using no_group_many_classes [OF that(2)] that(1) by force
  show ?thesis
  proof (intro conjI allI impI)
    assume "\<forall>i<length ws. single_instance ws i
        \<longrightarrow> strlen (wm_class_lower (ws ! i)) < MAX_PREFIX_LEN - 1"
    then show "\<exists>ws'. compute_prefixes ws = Inr ws'" by (rule completes)
  next
    fix ws' i j
    assume "compute_prefixes ws = Inr ws' \<and> i < length ws \<and> j < length ws \<and> i \<noteq> j
        \<and> single_instance ws i \<and> single_instance ws j \<and> (has_group ws i \<or> has_group ws j)"
    then show "win_prefix (ws' ! i) \<noteq> win_prefix (ws' ! j)" using differ [of ws' i j] by blast
  next
    fix i
    assume "card (wm_class_lower ` set ws) \<le> MAX_APPS" "i < length ws"
    then show "has_group ws i" by (rule grouped)
  qed
qed

theorem single_instance_sequences_injective_witness:
  "(\<exists>ws'. compute_prefixes
     [\<lparr>win_id = 1, wm_class = ''zen-browser'', title = ''(untitled)'', wm_class_lower = ''zen-browser'', win_prefix = ''''\<rparr>,
      \<lparr>win_id = 2, wm_class = ''Discord'', title = ''(untitled)'', wm_class_lower = ''discord'', win_prefix = ''''\<rparr>,
      \<lparr>win_id = 3, wm_class = ''obsidian'', title = ''(untitled)'', wm_class_lower = ''obsidian'', win_prefix = ''''\<rparr>,
      \<lparr>win_id = 4, wm_class = ''dolphin'', title = ''(untitled)'', wm_class_lower = ''dolphin'', win_prefix = ''''\<rparr>]
     = Inr ws')
   \<and> win_prefix ([\<lparr>win_id = 1, wm_class = ''zen-browser'', title = ''(untitled)'', wm_class_lower = ''zen-browser'', win_prefix = ''z''\<rparr>,
      \<lparr>win_id = 2, wm_class = ''Discord'', title = ''(untitled)'', wm_class_lower = ''discord'', win_prefix = ''di''\<rparr>,
      \<lparr>win_id = 3, wm_class = ''obsidian'', title = ''(untitled)'', wm_class_lower = ''obsidian'', win_prefix = ''o''\<rparr>,
      \<lparr>win_id = 4, wm_class = ''dolphin'', title = ''(untitled)'', wm_class_lower = ''dolphin'', win_prefix = ''do''\<rparr>] ! 1)
     \<noteq> win_prefix ([\<lparr>win_id = 1, wm_class = ''zen-browser'', title = ''(untitled)'', wm_class_lower = ''zen-browser'', win_prefix = ''z''\<rparr>,
      \<lparr>win_id = 2, wm_class = ''Discord'', title = ''(untitled)'', wm_class_lower = ''discord'', win_prefix = ''di''\<rparr>,
      \<lparr>win_id = 3, wm_class = ''obsidian'', title = ''(untitled)'', wm_class_lower = ''obsidian'', win_prefix = ''o''\<rparr>,
      \<lparr>win_id = 4, wm_class = ''dolphin'', title = ''(untitled)'', wm_class_lower = ''dolphin'', win_prefix = ''do''\<rparr>] ! 3)
   \<and> has_group
     [\<lparr>win_id = 1, wm_class = ''zen-browser'', title = ''(untitled)'', wm_class_lower = ''zen-browser'', win_prefix = ''''\<rparr>,
      \<lparr>win_id = 2, wm_class = ''Discord'', title = ''(untitled)'', wm_class_lower = ''discord'', win_prefix = ''''\<rparr>,
      \<lparr>win_id = 3, wm_class = ''obsidian'', title = ''(untitled)'', wm_class_lower = ''obsidian'', win_prefix = ''''\<rparr>,
      \<lparr>win_id = 4, wm_class = ''dolphin'', title = ''(untitled)'', wm_class_lower = ''dolphin'', win_prefix = ''''\<rparr>] 2"
proof -
  let ?clients = "[\<lparr>client_id = 1, client_wm_class = Some (''zen'' @ [NUL] @ ''zen-browser'' @ [NUL]),
        client_name = None, client_desktop = None\<rparr>,
      \<lparr>client_id = 2, client_wm_class = Some (''discord'' @ [NUL] @ ''Discord'' @ [NUL]),
        client_name = None, client_desktop = None\<rparr>,
      \<lparr>client_id = 3, client_wm_class = Some (''obsidian'' @ [NUL] @ ''obsidian'' @ [NUL]),
        client_name = None, client_desktop = None\<rparr>,
      \<lparr>client_id = 4, client_wm_class = Some (''dolphin'' @ [NUL] @ ''dolphin'' @ [NUL]),
        client_name = None, client_desktop = None\<rparr>]"
  let ?ws = "[\<lparr>win_id = 1, wm_class = ''zen-browser'', title = ''(untitled)'', wm_class_lower = ''zen-browser'', win_prefix = ''''\<rparr>,
      \<lparr>win_id = 2, wm_class = ''Discord'', title = ''(untitled)'', wm_class_lower = ''discord'', win_prefix = ''''\<rparr>,
      \<lparr>win_id = 3, wm_class = ''obsidian'', title = ''(untitled)'', wm_class_lower = ''obsidian'', win_prefix = ''''\<rparr>,
      \<lparr>win_id = 4, wm_class = ''dolphin'', title = ''(untitled)'', wm_class_lower = ''dolphin'', win_prefix = ''''\<rparr>]"
  let ?ws' = "[\<lparr>win_id = 1, wm_class = ''zen-browser'', title = ''(untitled)'', wm_class_lower = ''zen-browser'', win_prefix = ''z''\<rparr>,
      \<lparr>win_id = 2, wm_class = ''Discord'', title = ''(untitled)'', wm_class_lower = ''discord'', win_prefix = ''di''\<rparr>,
      \<lparr>win_id = 3, wm_class = ''obsidian'', title = ''(untitled)'', wm_class_lower = ''obsidian'', win_prefix = ''o''\<rparr>,
      \<lparr>win_id = 4, wm_class = ''dolphin'', title = ''(untitled)'', wm_class_lower = ''dolphin'', win_prefix = ''do''\<rparr>]"
  have d: "discover_windows store_atsw (Some ?clients) = (4, ?ws)" by code_simp
  note t = single_instance_sequences_injective [OF d]
  have "list_all (\<lambda>i. single_instance ?ws i
      \<longrightarrow> strlen (wm_class_lower (?ws ! i)) < MAX_PREFIX_LEN - 1) [0..<length ?ws]" by code_simp
  then have short: "\<forall>i<length ?ws. single_instance ?ws i
      \<longrightarrow> strlen (wm_class_lower (?ws ! i)) < MAX_PREFIX_LEN - 1"
    by (simp only: list_all_upt)
  have two: "compute_prefixes ?ws = Inr ?ws' \<and> 1 < length ?ws \<and> 3 < length ?ws \<and> (1::nat) \<noteq> 3
      \<and> single_instance ?ws 1 \<and> single_instance ?ws 3 \<and> (has_group ?ws 1 \<or> has_group ?ws 3)"
    by code_simp
  have few: "card (wm_class_lower ` set ?ws) \<le> MAX_APPS" by code_simp
  have third: "2 < length ?ws" by code_simp
  from t [THEN conjunct1, THEN mp, OF short]
  have 1: "\<exists>ws'. compute_prefixes ?ws = Inr ws'" .
  from t [THEN conjunct2, THEN conjunct1, rule_format, OF two]
  have 2: "win_prefix (?ws' ! 1) \<noteq> win_prefix (?ws' ! 3)" .
  from t [THEN conjunct2, THEN conjunct2, rule_format, OF few third]
  have 3: "has_group ?ws 2" .
  from 1 2 3 show ?thesis by (intro conjI)
qed

subsection \<open>More class names than groups\<close>

lemma digit_char_value: "d < 10 \<Longrightarrow> digit_value (digit_char d) = int d"
proof -
  assume d: "d < 10"
  have "(of_char (digit_char d) :: int) = int (of_char (digit_char d))" by (simp add: of_nat_of_char)
  also have "(of_char (digit_char d) :: nat) = (48 + d) mod 256" by (simp add: digit_char_def)
  also have "\<dots> = 48 + d" using d by simp
  finally show ?thesis by (simp add: digit_value_def)
qed

text \<open>The digits \<^verbatim>\<open>%d\<close> prints are read back as the number.\<close>

lemma decimal_value: "foldl (\<lambda>acc d. acc * 10 + digit_value d) 0 (decimal n) = int n"
proof (induction n rule: decimal.induct)
  case (1 n)
  show ?case
  proof (cases "n < 10")
    case True
    then have "decimal n = [digit_char n]" by (subst decimal.simps) simp
    then show ?thesis using True by (simp add: digit_char_value)
  next
    case False
    then have "decimal n = decimal (n div 10) @ [digit_char (n mod 10)]"
      by (subst decimal.simps) simp
    moreover have "int (n div 10) * 10 + int (n mod 10) = int n"
      by (metis mult.commute of_nat_add of_nat_mult of_nat_numeral mult_div_mod_eq)
    ultimately show ?thesis using "1.IH" [OF False] by (simp add: digit_char_value)
  qed
qed

lemma decimal_inj: "decimal p = decimal q \<Longrightarrow> p = q"
proof -
  assume eq: "decimal p = decimal q"
  have "int p = foldl (\<lambda>acc d. acc * 10 + digit_value d) 0 (decimal p)"
    by (rule decimal_value [symmetric])
  also have "\<dots> = foldl (\<lambda>acc d. acc * 10 + digit_value d) 0 (decimal q)"
    by (simp only: eq)
  also have "\<dots> = int q" by (rule decimal_value)
  finally show "p = q" by simp
qed

lemma decimal_NUL_free: "NUL \<notin> set (decimal n)"
proof (induction n rule: decimal.induct)
  case (1 n)
  have dc: "digit_char d \<noteq> NUL" if "d < 10" for d
  proof
    assume "digit_char d = NUL"
    then have "digit_value (digit_char d) = digit_value NUL" by simp
    then show False using digit_char_value [OF that] by (simp add: digit_value_def NUL_def)
  qed
  show ?case
  proof (cases "n < 10")
    case True
    then have "decimal n = [digit_char n]" by (subst decimal.simps) simp
    then show ?thesis using dc [OF True] by simp
  next
    case False
    then have "decimal n = decimal (n div 10) @ [digit_char (n mod 10)]"
      by (subst decimal.simps) simp
    then show ?thesis using "1.IH" [OF False] dc [of "n mod 10"] by simp
  qed
qed

lemma decimal_short: "n < 1000 \<Longrightarrow> strlen (decimal n) \<le> 3"
proof -
  have one: "strlen (decimal m) \<le> 1" if "m < 10" for m
    using that by (subst decimal.simps) simp
  have two: "strlen (decimal m) \<le> 2" if "m < 100" for m
    using that one [of "m div 10"] by (subst decimal.simps) simp
  assume "n < 1000"
  then show ?thesis using two [of "n div 10"] by (subst decimal.simps) simp
qed

lemma find_app_None_I:
  "\<forall>g\<in>set apps. strcmp (class_lower g) cls \<noteq> 0 \<Longrightarrow> find_app apps cls = None"
  by (induction apps) simp_all

text \<open>
  When all windows have different class names, none of them in the table yet, the
  grouping loop opens a group for each of them until the table is full.
\<close>

lemma group_windows_distinct_classes:
  assumes "\<forall>w\<in>set rest. find_app apps (wm_class_lower w) = None"
    and "\<forall>p<length rest. \<forall>q<length rest. p < q \<longrightarrow>
          strcmp (wm_class_lower (rest ! p)) (wm_class_lower (rest ! q)) \<noteq> 0"
  shows "map class_lower (group_windows rest i apps)
    = map class_lower apps @ take (MAX_APPS - length apps) (map wm_class_lower rest)"
  using assms
proof (induction rest arbitrary: i apps)
  case Nil
  then show ?case by simp
next
  case (Cons w rest)
  have none: "find_app apps (wm_class_lower w) = None" using Cons.prems(1) by simp
  have pair: "\<forall>p<length rest. \<forall>q<length rest. p < q \<longrightarrow>
      strcmp (wm_class_lower (rest ! p)) (wm_class_lower (rest ! q)) \<noteq> 0"
  proof (intro allI impI)
    fix p q assume "p < length rest" "q < length rest" "p < q"
    then show "strcmp (wm_class_lower (rest ! p)) (wm_class_lower (rest ! q)) \<noteq> 0"
      using Cons.prems(2) [rule_format, of "Suc p" "Suc q"] by simp
  qed
  show ?case
  proof (cases "length apps < MAX_APPS")
    case True
    let ?apps = "apps @ [\<lparr>class_lower = wm_class_lower w, window_indices = [i]\<rparr>]"
    have "find_app ?apps (wm_class_lower w') = None" if "w' \<in> set rest" for w'
    proof -
      from that obtain q where q: "q < length rest" "w' = rest ! q" by (auto simp: in_set_conv_nth)
      then have "strcmp (wm_class_lower w) (wm_class_lower w') \<noteq> 0"
        using Cons.prems(2) [rule_format, of 0 "Suc q"] by simp
      moreover have "find_app apps (wm_class_lower w') = None" using Cons.prems(1) that by simp
      ultimately show ?thesis by (simp add: find_app_append)
    qed
    then have "map class_lower (group_windows rest (Suc i) ?apps)
        = map class_lower ?apps @ take (MAX_APPS - length ?apps) (map wm_class_lower rest)"
      using pair by (intro Cons.IH) simp_all
    moreover have "MAX_APPS - length apps = Suc (MAX_APPS - length ?apps)" using True by simp
    ultimately show ?thesis using none True by simp
  next
    case False
    have "map class_lower (group_windows rest (Suc i) apps)
        = map class_lower apps @ take (MAX_APPS - length apps) (map wm_class_lower rest)"
      using Cons.prems(1) pair by (intro Cons.IH) simp_all
    then show ?thesis using none False by simp
  qed
qed

text \<open>
  The claim as worded fails for 130 windows with 130 different class names, window
  \<open>k\<close> having the class name \<open>k\<close> in decimal digits. The grouping loop opens groups for
  the first 128 class names and leaves the windows 128 and 129 in no group. Both are
  the only window of their application, and both keep the empty sequence that
  \<^verbatim>\<open>discover_windows\<close> stored.
\<close>

theorem ungrouped_windows_counterexample:
  "(let ws = map (\<lambda>k. \<lparr>win_id = k, wm_class = decimal k, title = ''(untitled)'',
                        wm_class_lower = decimal k, win_prefix = ''''\<rparr>) [0..<130]
    in single_instance ws 128 \<and> single_instance ws 129
     \<and> wm_class_lower (ws ! 128) \<noteq> wm_class_lower (ws ! 129)
     \<and> length (group_windows ws 0 []) = 128
     \<and> map_sum id (\<lambda>ws'. (win_prefix (ws' ! 128), win_prefix (ws' ! 129))) (compute_prefixes ws)
         = Inr ('''', ''''))"
proof -
  define ws where "ws = map (\<lambda>k. \<lparr>win_id = k, wm_class = decimal k, title = ''(untitled)'',
      wm_class_lower = decimal k, win_prefix = ''''\<rparr>) [0..<130]"
  let ?G = "group_windows ws 0 []"
  have len: "length ws = 130" by (simp add: ws_def del: upt_rec_numeral)
  have cl: "wm_class_lower (ws ! k) = decimal k" and pf: "win_prefix (ws ! k) = []"
    if "k < 130" for k
    using that by (simp_all add: ws_def del: upt_rec_numeral)
  have classes: "map wm_class_lower ws = map decimal [0..<130]"
    by (simp add: ws_def comp_def del: upt_rec_numeral)
  have single: "single_instance ws i" if "i < 130" for i
    unfolding single_instance_iff len using that cl decimal_inj by auto
  have differ: "strcmp (decimal p) (decimal q) \<noteq> 0" if "p \<noteq> q" for p q
    using strcmp_eq_0_D [OF _ decimal_NUL_free decimal_NUL_free, of p q] decimal_inj that by blast
  have "\<forall>w\<in>set ws. find_app [] (wm_class_lower w) = None" by simp
  moreover have "\<forall>p<length ws. \<forall>q<length ws. p < q \<longrightarrow>
      strcmp (wm_class_lower (ws ! p)) (wm_class_lower (ws ! q)) \<noteq> 0"
    unfolding len using cl differ by simp
  ultimately have "map class_lower ?G = take MAX_APPS (map wm_class_lower ws)"
    using group_windows_distinct_classes [of ws "[]" 0] by simp
  then have G: "map class_lower ?G = map decimal [0..<128]"
    unfolding classes by (simp add: MAX_APPS_def take_map del: upt_rec_numeral)
  then have lenG: "length ?G = 128"
    using length_map [of class_lower ?G] by (simp del: upt_rec_numeral)
  have Gc: "class_lower (?G ! a) = decimal a" if "a < 128" for a
    using nth_map [of a ?G class_lower] G lenG that by (simp del: upt_rec_numeral)
  have no_group: "\<not> has_group ws i" if "128 \<le> i" "i < 130" for i
  proof -
    have "\<forall>g\<in>set ?G. strcmp (class_lower g) (decimal i) \<noteq> 0"
    proof
      fix g assume "g \<in> set ?G"
      then obtain a where "a < 128" "g = ?G ! a" using lenG by (auto simp: in_set_conv_nth)
      then show "strcmp (class_lower g) (decimal i) \<noteq> 0" using Gc differ that(1) by simp
    qed
    then have "find_app ?G (decimal i) = None" by (rule find_app_None_I)
    then show ?thesis using cl [OF that(2)] by (simp add: has_group_def)
  qed
  have "find_prefix_len ?G a 1 < MAX_PREFIX_LEN" if "a < length ?G" for a
  proof -
    have "find_prefix_len ?G a 1 \<le> Suc (strlen (class_lower (?G ! a)))"
      by (rule find_prefix_len_le) simp
    moreover have "strlen (class_lower (?G ! a)) \<le> 3"
      using that lenG Gc [of a] decimal_short [of a] by simp
    ultimately show ?thesis by (simp add: MAX_PREFIX_LEN_def)
  qed
  then obtain ws' where cp: "compute_prefixes ws = Inr ws'"
    using compute_prefixes_ok_iff [of ws] by blast
  have "win_prefix (ws' ! 128) = []" "win_prefix (ws' ! 129) = []"
    using compute_prefixes_untouched [OF cp no_group] pf by simp_all
  then have "map_sum id (\<lambda>ws'. (win_prefix (ws' ! 128), win_prefix (ws' ! 129))) (compute_prefixes ws)
      = Inr ([], [])"
    unfolding cp by simp
  moreover have "wm_class_lower (ws ! 128) \<noteq> wm_class_lower (ws ! 129)"
    using cl [of 128] cl [of 129] decimal_inj [of 128 129] by auto
  ultimately show ?thesis
    unfolding Let_def ws_def [symmetric] using single [of 128] single [of 129] lenG by simp
qed

section \<open>A class name that is a prefix of another\<close>

text \<open>
  C10, as the code has it. When the class name of a group is a prefix (without regard
  to case) of another group's class name, the search for a unique length ends at the
  length of the class name plus one. A group with one window then gets its whole
  class name as its sequence; window \<open>k\<close> (counted from 0) of a group with several
  windows gets the whole class name followed by the number \<open>k + 1\<close>, cut to the first
  31 characters, which is all of it when the class name and the number together have
  at most 31 characters. The computation succeeds when the class name of every
  group with one window is shorter than 31 characters.
\<close>

theorem class_prefix_of_another_gets_whole_name:
  assumes "a < length (group_windows ws 0 [])" and "b < length (group_windows ws 0 [])"
    and "b \<noteq> a"
    and "prefix (map tolower (class_lower (group_windows ws 0 [] ! a)))
                (map tolower (class_lower (group_windows ws 0 [] ! b)))"
  shows "find_prefix_len (group_windows ws 0 []) a 1
           = strlen (class_lower (group_windows ws 0 [] ! a)) + 1
   \<and> ((\<forall>g\<in>set (group_windows ws 0 []). app_count g = 1
          \<longrightarrow> strlen (class_lower g) < MAX_PREFIX_LEN - 1)
        \<longrightarrow> (\<exists>ws'. compute_prefixes ws = Inr ws'))
   \<and> (\<forall>ws' k. compute_prefixes ws = Inr ws' \<and> k < app_count (group_windows ws 0 [] ! a) \<longrightarrow>
          win_prefix (ws' ! (window_indices (group_windows ws 0 [] ! a) ! k))
            = (if app_count (group_windows ws 0 [] ! a) = 1
               then class_lower (group_windows ws 0 [] ! a)
               else take (MAX_PREFIX_LEN - 1)
                      (class_lower (group_windows ws 0 [] ! a) @ decimal (k + 1)))
        \<and> (app_count (group_windows ws 0 [] ! a) \<noteq> 1
             \<and> strlen (class_lower (group_windows ws 0 [] ! a)) + strlen (decimal (k + 1))
                 \<le> MAX_PREFIX_LEN - 1
           \<longrightarrow> win_prefix (ws' ! (window_indices (group_windows ws 0 [] ! a) ! k))
                 = class_lower (group_windows ws 0 [] ! a) @ decimal (k + 1)))"
proof -
  let ?apps = "group_windows ws 0 []"
  let ?ca = "class_lower (?apps ! a)"
  have len: "find_prefix_len ?apps a 1 = strlen ?ca + 1"
    using class_prefix_exhausts [OF assms] by simp
  have ok: "\<exists>ws'. compute_prefixes ws = Inr ws'"
    if short: "\<forall>g\<in>set ?apps. app_count g = 1 \<longrightarrow> strlen (class_lower g) < MAX_PREFIX_LEN - 1"
  proof -
    have "find_prefix_len ?apps c 1 < MAX_PREFIX_LEN"
      if "c < length ?apps" "app_count (?apps ! c) = 1" for c
    proof -
      have "?apps ! c \<in> set ?apps" using that(1) by (rule nth_mem)
      with short have "app_count (?apps ! c) = 1 \<longrightarrow> strlen (class_lower (?apps ! c)) < MAX_PREFIX_LEN - 1"
        by (rule bspec)
      then have "strlen (class_lower (?apps ! c)) < MAX_PREFIX_LEN - 1"
        using that(2) by (rule mp)
      moreover have "find_prefix_len ?apps c 1 \<le> Suc (strlen (class_lower (?apps ! c)))"
        by (rule find_prefix_len_le) simp
      ultimately show ?thesis by simp
    qed
    then show ?thesis unfolding compute_prefixes_ok_iff by simp
  qed
  have seq: "win_prefix (ws' ! (window_indices (?apps ! a) ! k))
      = (if app_count (?apps ! a) = 1 then ?ca
         else take (MAX_PREFIX_LEN - 1) (?ca @ decimal (k + 1)))"
    if "compute_prefixes ws = Inr ws'" "k < app_count (?apps ! a)" for ws' k
  proof -
    have "win_prefix (ws' ! (window_indices (?apps ! a) ! k)) = sequence_of ?apps a k"
      using compute_prefixes_table [OF that(1), THEN conjunct2, rule_format, OF assms(1) that(2)] .
    then show ?thesis unfolding sequence_of_def len snprintf_prefix_def by simp
  qed
  have fits: "win_prefix (ws' ! (window_indices (?apps ! a) ! k)) = ?ca @ decimal (k + 1)"
    if "compute_prefixes ws = Inr ws'" "k < app_count (?apps ! a)" "app_count (?apps ! a) \<noteq> 1"
      "strlen ?ca + strlen (decimal (k + 1)) \<le> MAX_PREFIX_LEN - 1" for ws' k
    using seq [OF that(1,2)] that(3,4) by simp
  show ?thesis
  proof (intro conjI allI impI)
    show "find_prefix_len ?apps a 1 = strlen ?ca + 1" by (rule len)
  next
    assume "\<forall>g\<in>set ?apps. app_count g = 1 \<longrightarrow> strlen (class_lower g) < MAX_PREFIX_LEN - 1"
    then show "\<exists>ws'. compute_prefixes ws = Inr ws'" by (rule ok)
  next
    fix ws' k
    assume "compute_prefixes ws = Inr ws' \<and> k < app_count (?apps ! a)"
    then show "win_prefix (ws' ! (window_indices (?apps ! a) ! k))
      = (if app_count (?apps ! a) = 1 then ?ca
         else take (MAX_PREFIX_LEN - 1) (?ca @ decimal (k + 1)))"
      using seq by simp
  next
    fix ws' k
    assume "compute_prefixes ws = Inr ws' \<and> k < app_count (?apps ! a)"
      and "app_count (?apps ! a) \<noteq> 1
        \<and> strlen ?ca + strlen (decimal (k + 1)) \<le> MAX_PREFIX_LEN - 1"
    then show "win_prefix (ws' ! (window_indices (?apps ! a) ! k)) = ?ca @ decimal (k + 1)"
      using fits by simp
  qed
qed


theorem class_prefix_of_another_gets_whole_name_witness:
  "compute_prefixes
     [\<lparr>win_id = 1, wm_class = ''do'', title = ''t'', wm_class_lower = ''do'', win_prefix = ''''\<rparr>,
      \<lparr>win_id = 2, wm_class = ''Do'', title = ''t'', wm_class_lower = ''do'', win_prefix = ''''\<rparr>,
      \<lparr>win_id = 3, wm_class = ''dolphin'', title = ''t'', wm_class_lower = ''dolphin'', win_prefix = ''''\<rparr>]
   = Inr
     [\<lparr>win_id = 1, wm_class = ''do'', title = ''t'', wm_class_lower = ''do'', win_prefix = ''do1''\<rparr>,
      \<lparr>win_id = 2, wm_class = ''Do'', title = ''t'', wm_class_lower = ''do'', win_prefix = ''do2''\<rparr>,
      \<lparr>win_id = 3, wm_class = ''dolphin'', title = ''t'', wm_class_lower = ''dolphin'', win_prefix = ''dol''\<rparr>]
   \<and> find_prefix_len (group_windows
     [\<lparr>win_id = 1, wm_class = ''do'', title = ''t'', wm_class_lower = ''do'', win_prefix = ''''\<rparr>,
      \<lparr>win_id = 2, wm_class = ''Do'', title = ''t'', wm_class_lower = ''do'', win_prefix = ''''\<rparr>,
      \<lparr>win_id = 3, wm_class = ''dolphin'', title = ''t'', wm_class_lower = ''dolphin'', win_prefix = ''''\<rparr>] 0 []) 0 1 = 3
   \<and> win_prefix ([\<lparr>win_id = 1, wm_class = ''do'', title = ''t'', wm_class_lower = ''do'', win_prefix = ''do1''\<rparr>,
      \<lparr>win_id = 2, wm_class = ''Do'', title = ''t'', wm_class_lower = ''do'', win_prefix = ''do2''\<rparr>,
      \<lparr>win_id = 3, wm_class = ''dolphin'', title = ''t'', wm_class_lower = ''dolphin'', win_prefix = ''dol''\<rparr>] ! 1) = ''do'' @ decimal (1 + 1)"
proof -
  let ?ws = "[\<lparr>win_id = 1, wm_class = ''do'', title = ''t'', wm_class_lower = ''do'', win_prefix = ''''\<rparr>,
      \<lparr>win_id = 2, wm_class = ''Do'', title = ''t'', wm_class_lower = ''do'', win_prefix = ''''\<rparr>,
      \<lparr>win_id = 3, wm_class = ''dolphin'', title = ''t'', wm_class_lower = ''dolphin'', win_prefix = ''''\<rparr>]"
  let ?ws' = "[\<lparr>win_id = 1, wm_class = ''do'', title = ''t'', wm_class_lower = ''do'', win_prefix = ''do1''\<rparr>,
      \<lparr>win_id = 2, wm_class = ''Do'', title = ''t'', wm_class_lower = ''do'', win_prefix = ''do2''\<rparr>,
      \<lparr>win_id = 3, wm_class = ''dolphin'', title = ''t'', wm_class_lower = ''dolphin'', win_prefix = ''dol''\<rparr>]"
  have cp: "compute_prefixes ?ws = Inr ?ws'" by code_simp
  have a: "0 < length (group_windows ?ws 0 [])" by code_simp
  have b: "1 < length (group_windows ?ws 0 [])" by code_simp
  have ne: "(1::nat) \<noteq> 0" by simp
  have pre: "prefix (map tolower (class_lower (group_windows ?ws 0 [] ! 0)))
      (map tolower (class_lower (group_windows ?ws 0 [] ! 1)))" by code_simp
  note t = class_prefix_of_another_gets_whole_name [OF a b ne pre]
  have cl: "class_lower (group_windows ?ws 0 [] ! 0) = ''do''" by code_simp
  have wi: "window_indices (group_windows ?ws 0 [] ! 0) ! 1 = 1" by code_simp
  have k: "compute_prefixes ?ws = Inr ?ws' \<and> 1 < app_count (group_windows ?ws 0 [] ! 0)"
    by code_simp
  have fit: "app_count (group_windows ?ws 0 [] ! 0) \<noteq> 1
      \<and> strlen (class_lower (group_windows ?ws 0 [] ! 0)) + strlen (decimal (1 + 1))
          \<le> MAX_PREFIX_LEN - 1" by code_simp
  from t have "find_prefix_len (group_windows ?ws 0 []) 0 1
      = strlen (class_lower (group_windows ?ws 0 [] ! 0)) + 1" by (rule conjunct1)
  then have len: "find_prefix_len (group_windows ?ws 0 []) 0 1 = 3" unfolding cl by simp
  from t [THEN conjunct2, THEN conjunct2, rule_format, OF k, THEN conjunct2, rule_format, OF fit]
  have "win_prefix (?ws' ! 1) = ''do'' @ decimal (1 + 1)" unfolding cl wi .
  with cp len show ?thesis by simp
qed

text \<open>
  The claim as worded fails for class names of 31 characters and more. Two windows of
  a class of 31 letters and two of a class of 32 letters that starts with it: all four
  sequences are the first 31 letters, and no instance number is appended.
\<close>

theorem whole_name_truncated_counterexample:
  "group_windows
     [\<lparr>win_id = 1, wm_class = replicate 31 CHR ''a'', title = ''t'',
         wm_class_lower = replicate 31 CHR ''a'', win_prefix = ''''\<rparr>,
      \<lparr>win_id = 2, wm_class = replicate 31 CHR ''a'', title = ''t'',
         wm_class_lower = replicate 31 CHR ''a'', win_prefix = ''''\<rparr>,
      \<lparr>win_id = 3, wm_class = replicate 32 CHR ''a'', title = ''t'',
         wm_class_lower = replicate 32 CHR ''a'', win_prefix = ''''\<rparr>,
      \<lparr>win_id = 4, wm_class = replicate 32 CHR ''a'', title = ''t'',
         wm_class_lower = replicate 32 CHR ''a'', win_prefix = ''''\<rparr>] 0 []
   = [\<lparr>class_lower = replicate 31 CHR ''a'', window_indices = [0, 1]\<rparr>,
      \<lparr>class_lower = replicate 32 CHR ''a'', window_indices = [2, 3]\<rparr>]
   \<and> map_sum id (map win_prefix) (compute_prefixes
     [\<lparr>win_id = 1, wm_class = replicate 31 CHR ''a'', title = ''t'',
         wm_class_lower = replicate 31 CHR ''a'', win_prefix = ''''\<rparr>,
      \<lparr>win_id = 2, wm_class = replicate 31 CHR ''a'', title = ''t'',
         wm_class_lower = replicate 31 CHR ''a'', win_prefix = ''''\<rparr>,
      \<lparr>win_id = 3, wm_class = replicate 32 CHR ''a'', title = ''t'',
         wm_class_lower = replicate 32 CHR ''a'', win_prefix = ''''\<rparr>,
      \<lparr>win_id = 4, wm_class = replicate 32 CHR ''a'', title = ''t'',
         wm_class_lower = replicate 32 CHR ''a'', win_prefix = ''''\<rparr>])
   = Inr [replicate 31 CHR ''a'', replicate 31 CHR ''a'',
          replicate 31 CHR ''a'', replicate 31 CHR ''a'']
   \<and> replicate 31 CHR ''a'' \<noteq> replicate 31 CHR ''a'' @ decimal 1"
  by code_simp

section \<open>Loading the configuration (winleap.c)\<close>

lemma parse_instance_keys_loop_nonempty:
  "parse_instance_keys_loop raw out out_size = Some keys \<Longrightarrow> keys \<noteq> []"
  by (induction raw out out_size rule: parse_instance_keys_loop.induct)
    (auto simp: Let_def split: if_splits)

lemma apply_setting_keys_nonempty:
  "apply_setting config key val = Some config' \<Longrightarrow> instance_keys config \<noteq> []
   \<Longrightarrow> instance_keys config' \<noteq> []"
  by (auto simp: apply_setting_def parse_instance_keys_def
      dest: parse_instance_keys_loop_nonempty split: if_splits option.splits)

lemma read_config_lines_keys_nonempty:
  "read_config_lines config lines = Some config' \<Longrightarrow> instance_keys config \<noteq> []
   \<Longrightarrow> instance_keys config' \<noteq> []"
proof (induction lines arbitrary: config)
  case Nil
  then show ?case by simp
next
  case (Cons line lines)
  show ?case
  proof (cases "length (marks config) < MAX_MARKS")
    case False
    then show ?thesis using Cons.prems by simp
  next
    case True
    show ?thesis
    proof (cases "split_line line")
      case None
      then show ?thesis using Cons True by simp
    next
      case (Some kv)
      obtain key val where kv: "kv = (key, val)" by (cases kv)
      from Cons.prems(1) True Some kv obtain c1 where c1: "apply_setting config key val = Some c1"
        and rest: "read_config_lines c1 lines = Some config'"
        by (auto split: option.splits)
      from apply_setting_keys_nonempty [OF c1 Cons.prems(2)] show ?thesis
        by (rule Cons.IH [OF rest])
    qed
  qed
qed

lemma read_config_file_keys_nonempty:
  "read_config_file file = Some config \<Longrightarrow> instance_keys config \<noteq> []"
proof -
  assume r: "read_config_file file = Some config"
  then obtain lines where
    "read_config_lines \<lparr>marks = [], instance_keys = take (MAX_INSTANCE_KEYS - 1) DEFAULT_INSTANCE_KEYS,
        debug = 0\<rparr> lines = Some config"
    by (auto simp: read_config_file_def split: option.splits if_splits)
  then show ?thesis
    by (rule read_config_lines_keys_nonempty)
      (simp add: MAX_INSTANCE_KEYS_def DEFAULT_INSTANCE_KEYS_def)
qed

lemma read_config_lines_full:
  "\<not> length (marks config) < MAX_MARKS \<Longrightarrow> read_config_lines config lines = Some config"
  by (cases lines) simp_all

lemma apply_setting_malformed_mark:
  assumes "strcasecmp key ''instance_keys'' \<noteq> 0" and "strcasecmp key ''debug'' \<noteq> 0"
    and "mark_number key = None \<or> val = []"
  shows "apply_setting config key val = Some config"
  using assms by (auto simp: apply_setting_def split: option.splits)

lemma read_config_lines_skip:
  assumes "split_line line = Some (key, val)"
    and "apply_setting config key val = Some config" 
  shows "read_config_lines config (line # lines) = read_config_lines config lines"
  using assms read_config_lines_full [of config lines] by simp

lemma read_config_lines_skip_blank:
  assumes "split_line line = None"
  shows "read_config_lines config (line # lines) = read_config_lines config lines"
  using assms read_config_lines_full [of config lines] by simp

lemma read_config_lines_drop:
  assumes "\<And>config lines. read_config_lines config (ps @ lines) = read_config_lines config lines"
  shows "read_config_lines config (before @ ps @ after) = read_config_lines config (before @ after)"
proof (induction before arbitrary: config)
  case Nil
  show ?case using assms [of config after] by simp
next
  case (Cons l before)
  then show ?case by (simp split: option.splits)
qed

subsection \<open>The pieces fgets delivers\<close>

lemma fgets_chars_line:
  "CHR 0x0A \<notin> set l \<Longrightarrow> length l < n
   \<Longrightarrow> fgets_chars n (l @ CHR 0x0A # rest) = (l @ [CHR 0x0A], rest)"
proof (induction l arbitrary: n)
  case Nil
  then show ?case by (cases n) simp_all
next
  case (Cons c l)
  then obtain m where "n = Suc m" by (cases n) simp_all
  then show ?case using Cons by auto
qed

lemma fgets_chars_full:
  "CHR 0x0A \<notin> set l \<Longrightarrow> fgets_chars (length l) (l @ rest) = (l, rest)"
  by (induction l) auto

lemma fgets_chars_eof:
  "CHR 0x0A \<notin> set l \<Longrightarrow> length l \<le> n \<Longrightarrow> fgets_chars n l = (l, [])"
proof (induction l arbitrary: n)
  case Nil
  then show ?case by (cases n) simp_all
next
  case (Cons c l)
  then obtain m where "n = Suc m" by (cases n) simp_all
  then show ?case using Cons by auto
qed

lemma fgets_chars_split: "fgets_chars n s = (p, r) \<Longrightarrow> s = p @ r"
  by (induction n s arbitrary: p r rule: fgets_chars.induct)
    (auto split: if_splits prod.splits)

lemma fgets_chars_nonempty: "fgets_chars (Suc n) (c # s) = (p, r) \<Longrightarrow> p \<noteq> []"
  by (auto split: if_splits prod.splits)

lemma fgets_chars_ends:
  "fgets_chars n s = (p, r) \<Longrightarrow> (p \<noteq> [] \<and> last p = CHR 0x0A) \<or> length p = n \<or> r = []"
  by (induction n s arbitrary: p r rule: fgets_chars.induct)
    (auto split: if_splits prod.splits)

lemma fgets_chars_append:
  "fgets_chars n s = (p, r) \<Longrightarrow> (p \<noteq> [] \<and> last p = CHR 0x0A) \<or> length p = n
   \<Longrightarrow> fgets_chars n (s @ t) = (p, r @ t)"
proof (induction n s arbitrary: p r rule: fgets_chars.induct)
  case (1 stream)
  then show ?case by simp
next
  case (2 n)
  then show ?case by simp
next
  case (3 n c stream)
  show ?case
  proof (cases "c = CHR 0x0A")
    case True
    then show ?thesis using "3.prems" by simp
  next
    case False
    obtain p' r' where pr: "fgets_chars n stream = (p', r')" by (cases "fgets_chars n stream")
    then have p: "p = c # p'" and r: "r = r'" using "3.prems"(1) False by simp_all
    have "(p' \<noteq> [] \<and> last p' = CHR 0x0A) \<or> length p' = n"
      using "3.prems"(2) False unfolding p by (cases "p' = []") auto
    with pr have "fgets_chars n (stream @ t) = (p', r' @ t)"
      using False by (intro "3.IH") simp_all
    then show ?thesis using False p r by simp
  qed
qed

lemma fgets_lines_Nil: "fgets_lines [] = []"
  by (subst fgets_lines.simps) (simp add: fgets_def)

lemma fgets_lines_step:
  "stream \<noteq> [] \<Longrightarrow> fgets_chars (MAX_LINE_LEN - 1) stream = (line, rest)
   \<Longrightarrow> fgets_lines stream = line # fgets_lines rest"
  by (subst fgets_lines.simps) (simp add: fgets_def)

text \<open>
  After a newline \<^verbatim>\<open>fgets\<close> starts afresh: what it delivers for the rest of the file
  does not depend on the lines before.
\<close>

lemma fgets_lines_append:
  "before = [] \<or> last before = CHR 0x0A
   \<Longrightarrow> fgets_lines (before @ rest) = fgets_lines before @ fgets_lines rest"
proof (induction "length before" arbitrary: before rule: less_induct)
  case less
  show ?case
  proof (cases "before = []")
    case True
    then show ?thesis by (simp add: fgets_lines_Nil)
  next
    case False
    then obtain c s where cs: "before = c # s" by (cases before) auto
    obtain p r where pr: "fgets_chars (MAX_LINE_LEN - 1) before = (p, r)"
      by (cases "fgets_chars (MAX_LINE_LEN - 1) before")
    have split: "before = p @ r" using pr by (rule fgets_chars_split)
    have pne: "p \<noteq> []"
      using pr fgets_chars_nonempty [of 510 c s p r] unfolding cs by (simp add: MAX_LINE_LEN_def)
    have lb: "last before = CHR 0x0A" using less.prems False by simp
    have r: "r = [] \<or> last r = CHR 0x0A" using lb split by (cases "r = []") auto
    have "(p \<noteq> [] \<and> last p = CHR 0x0A) \<or> length p = MAX_LINE_LEN - 1"
      using fgets_chars_ends [OF pr] lb split pne by auto
    with pr have "fgets_chars (MAX_LINE_LEN - 1) (before @ rest) = (p, r @ rest)"
      by (rule fgets_chars_append)
    then have 1: "fgets_lines (before @ rest) = p # fgets_lines (r @ rest)"
      using False by (intro fgets_lines_step) simp_all
    have 2: "fgets_lines (r @ rest) = fgets_lines r @ fgets_lines rest"
      using r split pne by (intro less.hyps) simp_all
    have 3: "fgets_lines before = p # fgets_lines r"
      using False pr by (rule fgets_lines_step)
    show ?thesis unfolding 1 2 3 by simp
  qed
qed

lemma fgets_lines_short_line:
  assumes "CHR 0x0A \<notin> set l" and "length l < MAX_LINE_LEN - 1"
  shows "fgets_lines (l @ CHR 0x0A # rest) = (l @ [CHR 0x0A]) # fgets_lines rest"
  using assms by (intro fgets_lines_step fgets_chars_line) simp_all

lemma fgets_lines_full_line:
  assumes "CHR 0x0A \<notin> set l" and "length l = MAX_LINE_LEN - 1"
  shows "fgets_lines (l @ CHR 0x0A # rest) = l # [CHR 0x0A] # fgets_lines rest"
proof -
  have "fgets_chars (MAX_LINE_LEN - 1) (l @ CHR 0x0A # rest) = (l, CHR 0x0A # rest)"
    using fgets_chars_full [OF assms(1), of "CHR 0x0A # rest"] assms(2) by simp
  then have "fgets_lines (l @ CHR 0x0A # rest) = l # fgets_lines (CHR 0x0A # rest)"
    by (intro fgets_lines_step) simp_all
  moreover have "fgets_lines (CHR 0x0A # rest) = [CHR 0x0A] # fgets_lines rest"
    using fgets_lines_short_line [of "[]" rest] by (simp add: MAX_LINE_LEN_def)
  ultimately show ?thesis by simp
qed

lemma fgets_lines_last_line:
  assumes "CHR 0x0A \<notin> set l" and "length l \<le> MAX_LINE_LEN - 1" and "l \<noteq> []"
  shows "fgets_lines l = [l]"
proof -
  have "fgets_chars (MAX_LINE_LEN - 1) l = (l, [])" using assms(1,2) by (rule fgets_chars_eof)
  with assms(3) have "fgets_lines l = l # fgets_lines []" by (intro fgets_lines_step)
  then show ?thesis by (simp add: fgets_lines_Nil)
qed

lemma split_line_newline:
  assumes "CHR 0x0A \<notin> set l"
  shows "split_line (l @ [CHR 0x0A]) = split_line l"
proof -
  have "takeWhile (\<lambda>c. c \<noteq> CHR 0x0A) (c_str (l @ [CHR 0x0A]))
      = takeWhile (\<lambda>c. c \<noteq> CHR 0x0A) (c_str l)"
    using assms unfolding c_str_def by (induction l) auto
  then show ?thesis by (simp add: split_line_def)
qed

lemma split_line_blank: "split_line [CHR 0x0A] = None"
  by (simp add: split_line_def c_str_def NUL_def trim_def)

lemma split_line_nonempty: "split_line l = Some kv \<Longrightarrow> l \<noteq> []"
  by (auto simp: split_line_def c_str_def trim_def)

subsection \<open>Mark lines that are skipped\<close>

lemma read_config_lines_no_mark:
  "\<forall>l\<in>set lines. \<not> loads_mark l \<Longrightarrow> read_config_lines config lines = Some config'
   \<Longrightarrow> marks config' = marks config"
proof (induction lines arbitrary: config)
  case Nil
  then show ?case by simp
next
  case (Cons line lines)
  have rest: "\<forall>l\<in>set lines. \<not> loads_mark l" and here: "\<not> loads_mark line"
    using Cons.prems(1) by simp_all
  show ?case
  proof (cases "length (marks config) < MAX_MARKS")
    case False
    then show ?thesis using Cons.prems(2) by simp
  next
    case True
    show ?thesis
    proof (cases "split_line line")
      case None
      then have "read_config_lines config lines = Some config'"
        using Cons.prems(2) True by simp
      with rest show ?thesis by (rule Cons.IH)
    next
      case (Some kv)
      obtain key val where kv: "kv = (key, val)" by (cases kv)
      from Cons.prems(2) True Some kv obtain c1 where c1: "apply_setting config key val = Some c1"
        and r: "read_config_lines c1 lines = Some config'"
        by (auto split: option.splits)
      have "strcasecmp key ''instance_keys'' = 0 \<or> strcasecmp key ''debug'' = 0
          \<or> mark_number key = None \<or> val = []"
        using here Some kv by (auto simp: loads_mark_def)
      then have "marks c1 = marks config"
        using c1 by (auto simp: apply_setting_def split: option.splits if_splits)
      moreover from rest r have "marks config' = marks c1" by (rule Cons.IH)
      ultimately show ?thesis by simp
    qed
  qed
qed

lemma read_config_file_no_mark:
  assumes "\<forall>l\<in>set (fgets_lines contents). \<not> loads_mark l"
  shows "read_config_file (Some contents) = None"
proof (cases "read_config_lines
    \<lparr>marks = [], instance_keys = take (MAX_INSTANCE_KEYS - 1) DEFAULT_INSTANCE_KEYS, debug = 0\<rparr>
    (fgets_lines contents)")
  case None
  then show ?thesis by (simp add: read_config_file_def)
next
  case (Some config')
  with assms have "marks config' = marks
      \<lparr>marks = [], instance_keys = take (MAX_INSTANCE_KEYS - 1) DEFAULT_INSTANCE_KEYS, debug = 0\<rparr>"
    by (rule read_config_lines_no_mark)
  then show ?thesis using Some by (simp add: read_config_file_def)
qed

lemma main_winleap_same_config:
  "read_config_file f = read_config_file f'
   \<Longrightarrow> main_winleap (env\<lparr>config_file := f\<rparr>) cwo mark_num
       = main_winleap (env\<lparr>config_file := f'\<rparr>) cwo mark_num"
  by (simp add: main_winleap_def select_instance_interactively_def
      cong: option.case_cong if_cong)

lemma main_winleap_no_config:
  "0 < mark_num \<Longrightarrow> read_config_file f = None
   \<Longrightarrow> main_winleap (env\<lparr>config_file := f\<rparr>) cwo mark_num
       = Some \<lparr>exit_code = 1, activated = None, stderr = [FailedToReadConfig], grab_calls = 0\<rparr>"
  by (simp add: main_winleap_def)

text \<open>
  C6, as the code has it. Take a line of the file, at the start of the file or after a
  newline, that holds at most 511 bytes before its newline (\<^verbatim>\<open>MAX_LINE_LEN - 1\<close>, what
  one call of \<^verbatim>\<open>fgets\<close> reads) and is a malformed mark line: it splits into a key and a
  value, the key is neither \<^verbatim>\<open>instance_keys\<close> nor \<^verbatim>\<open>debug\<close>, and the key is no positive
  number up to \<^verbatim>\<open>INT_MAX\<close> or the value is empty. Such a line is skipped: the
  configuration that is loaded, and with it the whole run, is the same as for the file
  without the line, whether the line ends with a newline or is the last line of the
  file and has none. Loading fails, and the program exits with code 1, for every file
  in which none of the pieces that \<^verbatim>\<open>fgets\<close> delivers is a valid mark line.
\<close>

theorem malformed_mark_line_is_skipped:
  assumes "split_line line = Some (key, val)"
    and "strcasecmp key ''instance_keys'' \<noteq> 0" and "strcasecmp key ''debug'' \<noteq> 0"
    and "mark_number key = None \<or> val = []"
    and "CHR 0x0A \<notin> set line" and "length line \<le> MAX_LINE_LEN - 1"
    and "before = [] \<or> last before = CHR 0x0A"
  shows "read_config_file (Some (before @ line @ [CHR 0x0A] @ after))
           = read_config_file (Some (before @ after))
   \<and> main_winleap (env\<lparr>config_file := Some (before @ line @ [CHR 0x0A] @ after)\<rparr>) cwo mark_num
       = main_winleap (env\<lparr>config_file := Some (before @ after)\<rparr>) cwo mark_num
   \<and> read_config_file (Some (before @ line)) = read_config_file (Some before)
   \<and> main_winleap (env\<lparr>config_file := Some (before @ line)\<rparr>) cwo mark_num
       = main_winleap (env\<lparr>config_file := Some before\<rparr>) cwo mark_num
   \<and> ((\<forall>l\<in>set (fgets_lines contents). \<not> loads_mark l) \<longrightarrow>
        read_config_file (Some contents) = None
        \<and> (0 < mark_num \<longrightarrow>
             main_winleap (env\<lparr>config_file := Some contents\<rparr>) cwo mark_num
               = Some \<lparr>exit_code = 1, activated = None, stderr = [FailedToReadConfig],
                       grab_calls = 0\<rparr>))"
proof -
  let ?nl = "CHR 0x0A"
  have skip: "read_config_lines config (line # lines) = read_config_lines config lines"
    for config lines
    using assms(1) apply_setting_malformed_mark [OF assms(2-4)] by (rule read_config_lines_skip)
  have skip_nl: "read_config_lines config ((line @ [?nl]) # lines) = read_config_lines config lines"
    for config lines
  proof -
    have "split_line (line @ [?nl]) = Some (key, val)"
      using split_line_newline [OF assms(5)] assms(1) by simp
    then show ?thesis
      using apply_setting_malformed_mark [OF assms(2-4)] by (rule read_config_lines_skip)
  qed
  have skip_blank: "read_config_lines config ([?nl] # lines) = read_config_lines config lines"
    for config lines
    using split_line_blank by (rule read_config_lines_skip_blank)
  have ne: "line \<noteq> []" using assms(1) by (rule split_line_nonempty)
  have pieces: "read_config_lines config (fgets_lines (before @ line @ [?nl] @ after))
      = read_config_lines config (fgets_lines (before @ after))" for config
  proof (cases "length line < MAX_LINE_LEN - 1")
    case True
    have "fgets_lines (before @ line @ [?nl] @ after)
        = fgets_lines before @ [line @ [?nl]] @ fgets_lines after"
      using fgets_lines_append [OF assms(7), of "line @ ?nl # after"]
        fgets_lines_short_line [OF assms(5) True, of after] by simp
    moreover have "read_config_lines config (fgets_lines before @ [line @ [?nl]] @ fgets_lines after)
        = read_config_lines config (fgets_lines before @ fgets_lines after)"
      by (rule read_config_lines_drop) (simp only: append_Cons append_Nil skip_nl)
    ultimately show ?thesis using fgets_lines_append [OF assms(7), of after] by simp
  next
    case False
    then have full: "length line = MAX_LINE_LEN - 1" using assms(6) by simp
    have "fgets_lines (before @ line @ [?nl] @ after)
        = fgets_lines before @ [line, [?nl]] @ fgets_lines after"
      using fgets_lines_append [OF assms(7), of "line @ ?nl # after"]
        fgets_lines_full_line [OF assms(5) full, of after] by simp
    moreover have "read_config_lines config (fgets_lines before @ [line, [?nl]] @ fgets_lines after)
        = read_config_lines config (fgets_lines before @ fgets_lines after)"
      by (rule read_config_lines_drop) (simp only: append_Cons append_Nil skip skip_blank)
    ultimately show ?thesis using fgets_lines_append [OF assms(7), of after] by simp
  qed
  have last_pieces: "read_config_lines config (fgets_lines (before @ line))
      = read_config_lines config (fgets_lines before)" for config
  proof -
    have "fgets_lines (before @ line) = fgets_lines before @ [line] @ []"
      using fgets_lines_append [OF assms(7), of line]
        fgets_lines_last_line [OF assms(5,6) ne] by simp
    moreover have "read_config_lines config (fgets_lines before @ [line] @ [])
        = read_config_lines config (fgets_lines before @ [])"
      by (rule read_config_lines_drop) (simp only: append_Cons append_Nil skip)
    ultimately show ?thesis by simp
  qed
  have r1: "read_config_file (Some (before @ line @ [?nl] @ after))
      = read_config_file (Some (before @ after))"
    by (simp only: read_config_file_def option.case pieces)
  have r2: "read_config_file (Some (before @ line)) = read_config_file (Some before)"
    by (simp only: read_config_file_def option.case last_pieces)
  have m1: "main_winleap (env\<lparr>config_file := Some (before @ line @ [?nl] @ after)\<rparr>) cwo mark_num
      = main_winleap (env\<lparr>config_file := Some (before @ after)\<rparr>) cwo mark_num"
    using r1 by (rule main_winleap_same_config)
  have m2: "main_winleap (env\<lparr>config_file := Some (before @ line)\<rparr>) cwo mark_num
      = main_winleap (env\<lparr>config_file := Some before\<rparr>) cwo mark_num"
    using r2 by (rule main_winleap_same_config)
  have none: "read_config_file (Some contents) = None
      \<and> (0 < mark_num \<longrightarrow>
           main_winleap (env\<lparr>config_file := Some contents\<rparr>) cwo mark_num
             = Some \<lparr>exit_code = 1, activated = None, stderr = [FailedToReadConfig],
                     grab_calls = 0\<rparr>)"
    if "\<forall>l\<in>set (fgets_lines contents). \<not> loads_mark l"
    using read_config_file_no_mark [OF that] main_winleap_no_config [of mark_num "Some contents" env cwo]
    by simp
  from r1 m1 r2 m2 none show ?thesis by blast
qed

theorem malformed_mark_line_is_skipped_witness:
  "read_config_file (Some (''1=discord'' @ [CHR 0x0A] @ ''0=zen'' @ [CHR 0x0A] @ ''2=zen'' @ [CHR 0x0A]))
     = read_config_file (Some (''1=discord'' @ [CHR 0x0A] @ ''2=zen'' @ [CHR 0x0A]))
   \<and> read_config_file (Some (''1=discord'' @ [CHR 0x0A] @ ''0=zen''))
     = read_config_file (Some (''1=discord'' @ [CHR 0x0A]))
   \<and> read_config_file (Some (''# marks'' @ [CHR 0x0A] @ ''0=zen'' @ [CHR 0x0A] @ ''3='')) = None"
proof -
  have s: "split_line ''0=zen'' = Some (''0'', ''zen'')" by code_simp
  have k: "strcasecmp ''0'' ''instance_keys'' \<noteq> 0" by code_simp
  have d: "strcasecmp ''0'' ''debug'' \<noteq> 0" by code_simp
  have m: "mark_number ''0'' = None \<or> ''zen'' = []" by code_simp
  have n: "CHR 0x0A \<notin> set ''0=zen''" by code_simp
  have l: "length ''0=zen'' \<le> MAX_LINE_LEN - 1" by code_simp
  have b: "''1=discord'' @ [CHR 0x0A] = [] \<or> last (''1=discord'' @ [CHR 0x0A]) = CHR 0x0A"
    by code_simp
  have v: "\<forall>l\<in>set (fgets_lines (''# marks'' @ [CHR 0x0A] @ ''0=zen'' @ [CHR 0x0A] @ ''3='')).
      \<not> loads_mark l" by code_simp
  from malformed_mark_line_is_skipped [OF s k d m n l b,
      of "''2=zen'' @ [CHR 0x0A]" _ _ _ "''# marks'' @ [CHR 0x0A] @ ''0=zen'' @ [CHR 0x0A] @ ''3=''"]
    v
  show ?thesis by simp
qed

text \<open>
  The claim as worded fails for a file with the lines \<^verbatim>\<open>abc=zen\<close>, \<^verbatim>\<open>0=zen\<close>, \<^verbatim>\<open>3=\<close>
  and \<^verbatim>\<open>1=discord\<close>: the three malformed lines are skipped, the mark 1 is loaded, and
  the run for mark 1 goes on to activate the Discord window with exit code 0.
\<close>

theorem malformed_mark_line_counterexample:
  "read_config_file
     (Some (''abc=zen'' @ [CHR 0x0A] @ ''0=zen'' @ [CHR 0x0A] @ ''3='' @ [CHR 0x0A]
            @ ''1=discord'' @ [CHR 0x0A]))
   = Some \<lparr>marks = [\<lparr>number = 1, mark_class = ''discord''\<rparr>],
           instance_keys = ''qwertyuiopasdfghjklzxcvbnm1234567890'', debug = 0\<rparr>
   \<and> main_winleap
       \<lparr>config_file = Some (''abc=zen'' @ [CHR 0x0A] @ ''0=zen'' @ [CHR 0x0A] @ ''3='' @ [CHR 0x0A]
                            @ ''1=discord'' @ [CHR 0x0A]),
        display_opens = True,
        net_client_list = Some
          [\<lparr>client_id = 10, client_wm_class = Some (''zen'' @ [NUL] @ ''Zen'' @ [NUL]),
             client_name = Some ''a'', client_desktop = Some 0\<rparr>,
           \<lparr>client_id = 11, client_wm_class = Some (''discord'' @ [NUL] @ ''Discord'' @ [NUL]),
             client_name = Some ''b'', client_desktop = Some 1\<rparr>],
        net_current_desktop = Some 0, grab_answers = xgrab_busy, key_events = []\<rparr>
       False 1
   = Some \<lparr>exit_code = 0, activated = Some 1, stderr = [], grab_calls = 0\<rparr>"
  by code_simp

text \<open>
  The bound on the length of the line is needed. A malformed mark line longer than
  what \<^verbatim>\<open>fgets\<close> reads in one call is read in pieces, and a later piece is taken for a
  line of its own: of the line \<^verbatim>\<open>abc=\<close>, 507 times \<^verbatim>\<open>x\<close>, \<^verbatim>\<open>9=zen\<close> the first 511 bytes are
  skipped and the rest, \<^verbatim>\<open>9=zen\<close>, loads the mark 9.
\<close>

lemma long_mark_line_is_read_in_pieces:
  "mark_number ''abc'' = None
   \<and> map_option marks (read_config_file
       (Some (''abc='' @ replicate 507 CHR ''x'' @ ''9=zen'' @ [CHR 0x0A] @ ''1=discord'' @ [CHR 0x0A])))
     = Some [\<lparr>number = 9, mark_class = ''zen''\<rparr>, \<lparr>number = 1, mark_class = ''discord''\<rparr>]
   \<and> map_option marks (read_config_file (Some (''1=discord'' @ [CHR 0x0A])))
     = Some [\<lparr>number = 1, mark_class = ''discord''\<rparr>]"
  by code_simp


section \<open>More windows than selector keys (winleap.c)\<close>

text \<open>
  C1, as the code has it. When the windows found for the mark outnumber the selector
  keys, \<^verbatim>\<open>select_instance_interactively\<close> reports both counts and returns \<open>-2\<close> before
  it grabs the keyboard or reads an event, and \<^verbatim>\<open>main\<close> activates no window and exits
  with code 2.
\<close>

theorem too_many_windows_exit:
  assumes "0 < mark_num"
    and "read_config_file (config_file env) = Some config"
    and "find_wmclass_for_mark config mark_num = Some target_class"
    and "display_opens env"
    and "discover_windows store_winleap (net_client_list env) = (n, windows)"
    and "n \<noteq> 0"
    and "matching_indices = find_windows_by_class_and_scope windows target_class cwo
          (if cwo then get_current_desktop (net_current_desktop env) else - 1) MAX_WINDOWS"
    and "strlen (instance_keys config) < length matching_indices"
  shows "select_instance_interactively config matching_indices env
           = Some (- 2, [TooManyWindows (length matching_indices) (strlen (instance_keys config))], 0)
   \<and> main_winleap env cwo mark_num
       = Some \<lparr>exit_code = 2, activated = None,
               stderr = [TooManyWindows (length matching_indices) (strlen (instance_keys config))],
               grab_calls = 0\<rparr>"
proof -
  have "instance_keys config \<noteq> []" using assms(2) by (rule read_config_file_keys_nonempty)
  then have "0 < strlen (instance_keys config)" by simp
  with assms(8) have mc: "length matching_indices \<noteq> 0" "length matching_indices \<noteq> 1" by linarith+
  have sel: "select_instance_interactively config matching_indices env
      = Some (- 2, [TooManyWindows (length matching_indices) (strlen (instance_keys config))], 0)"
    using assms(8) mc by (simp add: select_instance_interactively_def Let_def)
  have "main_winleap env cwo mark_num
      = (case select_instance_interactively config matching_indices env of
           None \<Rightarrow> None
         | Some (target_idx, msgs, calls) \<Rightarrow>
             if target_idx = - 1 then
               Some \<lparr>exit_code = 1, activated = None, stderr = msgs, grab_calls = calls\<rparr>
             else if target_idx < 0 then
               Some \<lparr>exit_code = 2, activated = None, stderr = msgs, grab_calls = calls\<rparr>
             else
               Some \<lparr>exit_code = 0, activated = Some (nat target_idx), stderr = msgs,
                     grab_calls = calls\<rparr>)"
    unfolding main_winleap_def using assms(1-6) mc
    by (simp add: Let_def assms(7) [symmetric])
  then show ?thesis unfolding sel by simp
qed

theorem too_many_windows_exit_witness:
  "main_winleap
     \<lparr>config_file = Some (''1=discord'' @ [CHR 0x0A] @ ''instance_keys=12'' @ [CHR 0x0A]),
      display_opens = True,
      net_client_list = Some
        [\<lparr>client_id = 10, client_wm_class = Some (''discord'' @ [NUL] @ ''Discord'' @ [NUL]),
           client_name = Some ''a'', client_desktop = Some 0\<rparr>,
         \<lparr>client_id = 11, client_wm_class = Some (''discord'' @ [NUL] @ ''discord'' @ [NUL]),
           client_name = Some ''b'', client_desktop = Some 1\<rparr>,
         \<lparr>client_id = 12, client_wm_class = Some (''discord'' @ [NUL] @ ''Discord'' @ [NUL]),
           client_name = None, client_desktop = None\<rparr>],
      net_current_desktop = Some 0, grab_answers = xgrab_busy, key_events = [Key ''1'']\<rparr>
     False 1
   = Some \<lparr>exit_code = 2, activated = None, stderr = [TooManyWindows 3 2], grab_calls = 0\<rparr>"
proof -
  let ?env = "\<lparr>config_file = Some (''1=discord'' @ [CHR 0x0A] @ ''instance_keys=12'' @ [CHR 0x0A]),
      display_opens = True,
      net_client_list = Some
        [\<lparr>client_id = 10, client_wm_class = Some (''discord'' @ [NUL] @ ''Discord'' @ [NUL]),
           client_name = Some ''a'', client_desktop = Some 0\<rparr>,
         \<lparr>client_id = 11, client_wm_class = Some (''discord'' @ [NUL] @ ''discord'' @ [NUL]),
           client_name = Some ''b'', client_desktop = Some 1\<rparr>,
         \<lparr>client_id = 12, client_wm_class = Some (''discord'' @ [NUL] @ ''Discord'' @ [NUL]),
           client_name = None, client_desktop = None\<rparr>],
      net_current_desktop = Some 0, grab_answers = xgrab_busy, key_events = [Key ''1'']\<rparr>"
  let ?config = "\<lparr>marks = [\<lparr>number = 1, mark_class = ''discord''\<rparr>], instance_keys = ''12'',
      debug = 0\<rparr>"
  let ?n = "fst (discover_windows store_winleap (net_client_list ?env))"
  let ?windows = "snd (discover_windows store_winleap (net_client_list ?env))"
  let ?matching = "find_windows_by_class_and_scope ?windows ''discord'' False
          (if False then get_current_desktop (net_current_desktop ?env) else - 1) MAX_WINDOWS"
  have h1: "0 < (1::int)" by simp
  have h2: "read_config_file (config_file ?env) = Some ?config" by code_simp
  have h3: "find_wmclass_for_mark ?config 1 = Some ''discord''" by code_simp
  have h4: "display_opens ?env" by simp
  have h5: "discover_windows store_winleap (net_client_list ?env) = (?n, ?windows)" by simp
  have h6: "?n \<noteq> 0" by code_simp
  have h7: "?matching = ?matching" by (rule refl)
  have h8: "strlen (instance_keys ?config) < length ?matching" by code_simp
  have c: "length ?matching = 3" by code_simp
  from too_many_windows_exit [OF h1 h2 h3 h4 h5 h6 h7 h8, THEN conjunct2]
  show ?thesis unfolding c by simp
qed

text \<open>
  The claim as worded, with exit code 1, fails for three Discord windows and the two
  selector keys \<^verbatim>\<open>12\<close>: the run reports 3 windows for 2 keys and ends with exit code 2.
\<close>

theorem too_many_windows_exit_code_counterexample:
  "exit_code (the (main_winleap
     \<lparr>config_file = Some (''1=discord'' @ [CHR 0x0A] @ ''instance_keys=12'' @ [CHR 0x0A]),
      display_opens = True,
      net_client_list = Some
        [\<lparr>client_id = 10, client_wm_class = Some (''discord'' @ [NUL] @ ''Discord'' @ [NUL]),
           client_name = Some ''a'', client_desktop = Some 0\<rparr>,
         \<lparr>client_id = 11, client_wm_class = Some (''discord'' @ [NUL] @ ''discord'' @ [NUL]),
           client_name = Some ''b'', client_desktop = Some 1\<rparr>,
         \<lparr>client_id = 12, client_wm_class = Some (''discord'' @ [NUL] @ ''Discord'' @ [NUL]),
           client_name = None, client_desktop = None\<rparr>],
      net_current_desktop = Some 0, grab_answers = xgrab_busy, key_events = [Key ''1'']\<rparr>
     False 1)) \<noteq> 1
   \<and> main_winleap
     \<lparr>config_file = Some (''1=discord'' @ [CHR 0x0A] @ ''instance_keys=12'' @ [CHR 0x0A]),
      display_opens = True,
      net_client_list = Some
        [\<lparr>client_id = 10, client_wm_class = Some (''discord'' @ [NUL] @ ''Discord'' @ [NUL]),
           client_name = Some ''a'', client_desktop = Some 0\<rparr>,
         \<lparr>client_id = 11, client_wm_class = Some (''discord'' @ [NUL] @ ''discord'' @ [NUL]),
           client_name = Some ''b'', client_desktop = Some 1\<rparr>,
         \<lparr>client_id = 12, client_wm_class = Some (''discord'' @ [NUL] @ ''Discord'' @ [NUL]),
           client_name = None, client_desktop = None\<rparr>],
      net_current_desktop = Some 0, grab_answers = xgrab_busy, key_events = [Key ''1'']\<rparr>
     False 1
   = Some \<lparr>exit_code = 2, activated = None, stderr = [TooManyWindows 3 2], grab_calls = 0\<rparr>"
  by code_simp


section \<open>No window with a class name (winleap.c)\<close>

lemma discover_loop_all_filtered:
  "\<forall>c\<in>set client_list. get_wm_class (client_wm_class c) = None
   \<Longrightarrow> discover_loop store client_list windows = windows"
  by (induction client_list arbitrary: windows) auto

text \<open>
  C7, as the code has it. With the configuration loaded, the mark mapped and the
  display open: when the client list is read but no window on it has a class name,
  \<^verbatim>\<open>discover_windows\<close> returns 0 and \<^verbatim>\<open>main\<close> takes that for a failed discovery, with
  exit code 2. The report of no window for the mark's class, with exit code 1, is
  what a run gives that discovered at least one window, none of them matching.
\<close>

theorem no_classified_window_exit:
  assumes "0 < mark_num"
    and "read_config_file (config_file env) = Some config"
    and "find_wmclass_for_mark config mark_num = Some target_class"
    and "display_opens env"
  shows "(net_client_list env = Some client_list
          \<and> (\<forall>c\<in>set client_list. get_wm_class (client_wm_class c) = None)
        \<longrightarrow> main_winleap env cwo mark_num
            = Some \<lparr>exit_code = 2, activated = None, stderr = [FailedToDiscoverWindows],
                    grab_calls = 0\<rparr>)
   \<and> (discover_windows store_winleap (net_client_list env) = (n, windows) \<and> n \<noteq> 0
        \<and> find_windows_by_class_and_scope windows target_class cwo
             (if cwo then get_current_desktop (net_current_desktop env) else - 1) MAX_WINDOWS = []
        \<longrightarrow> main_winleap env cwo mark_num
            = Some \<lparr>exit_code = 1, activated = None, stderr = [NoWindowsFound target_class],
                    grab_calls = 0\<rparr>)"
proof (intro conjI impI)
  assume h: "net_client_list env = Some client_list
      \<and> (\<forall>c\<in>set client_list. get_wm_class (client_wm_class c) = None)"
  then have "\<forall>c\<in>set (take 1024 client_list). get_wm_class (client_wm_class c) = None"
    by (meson in_set_takeD)
  then have "discover_loop store_winleap (take 1024 client_list) [] = []"
    by (rule discover_loop_all_filtered)
  then have "discover_windows store_winleap (net_client_list env) = (0, [])"
    using h by (simp add: discover_windows_def)
  then show "main_winleap env cwo mark_num
      = Some \<lparr>exit_code = 2, activated = None, stderr = [FailedToDiscoverWindows], grab_calls = 0\<rparr>"
    unfolding main_winleap_def using assms by simp
next
  assume "discover_windows store_winleap (net_client_list env) = (n, windows) \<and> n \<noteq> 0
      \<and> find_windows_by_class_and_scope windows target_class cwo
           (if cwo then get_current_desktop (net_current_desktop env) else - 1) MAX_WINDOWS = []"
  then show "main_winleap env cwo mark_num
      = Some \<lparr>exit_code = 1, activated = None, stderr = [NoWindowsFound target_class],
              grab_calls = 0\<rparr>"
    unfolding main_winleap_def using assms by (simp add: Let_def)
qed

theorem no_classified_window_exit_witness:
  "main_winleap
     \<lparr>config_file = Some (''1=discord'' @ [CHR 0x0A]),
      display_opens = True,
      net_client_list = Some
        [\<lparr>client_id = 10, client_wm_class = None, client_name = Some ''a'',
           client_desktop = Some 0\<rparr>,
         \<lparr>client_id = 11, client_wm_class = Some [NUL, NUL], client_name = None,
           client_desktop = None\<rparr>],
      net_current_desktop = Some 0, grab_answers = xgrab_busy, key_events = []\<rparr>
     False 1
   = Some \<lparr>exit_code = 2, activated = None, stderr = [FailedToDiscoverWindows], grab_calls = 0\<rparr>"
proof -
  let ?clients = "[\<lparr>client_id = 10, client_wm_class = None, client_name = Some ''a'',
           client_desktop = Some 0\<rparr>,
         \<lparr>client_id = 11, client_wm_class = Some [NUL, NUL], client_name = None,
           client_desktop = None\<rparr>]"
  let ?env = "\<lparr>config_file = Some (''1=discord'' @ [CHR 0x0A]),
      display_opens = True, net_client_list = Some ?clients,
      net_current_desktop = Some 0, grab_answers = xgrab_busy, key_events = []\<rparr>"
  let ?config = "\<lparr>marks = [\<lparr>number = 1, mark_class = ''discord''\<rparr>],
      instance_keys = ''qwertyuiopasdfghjklzxcvbnm1234567890'', debug = 0\<rparr>"
  have h1: "0 < (1::int)" by simp
  have h2: "read_config_file (config_file ?env) = Some ?config" by code_simp
  have h3: "find_wmclass_for_mark ?config 1 = Some ''discord''" by code_simp
  have h4: "display_opens ?env" by simp
  have h5: "net_client_list ?env = Some ?clients
      \<and> (\<forall>c\<in>set ?clients. get_wm_class (client_wm_class c) = None)" by code_simp
  from no_classified_window_exit [OF h1 h2 h3 h4, THEN conjunct1, rule_format, OF h5]
  show ?thesis .
qed

text \<open>
  The claim as worded, with exit code 1 and a report of no matching window, fails
  when the only window on the client list has no \<^verbatim>\<open>WM_CLASS\<close>: the run reports a failed
  discovery and ends with exit code 2.
\<close>

theorem no_classified_window_counterexample:
  "main_winleap
     \<lparr>config_file = Some (''1=discord'' @ [CHR 0x0A]),
      display_opens = True,
      net_client_list = Some
        [\<lparr>client_id = 10, client_wm_class = None, client_name = Some ''a'',
           client_desktop = Some 0\<rparr>],
      net_current_desktop = Some 0, grab_answers = xgrab_busy, key_events = []\<rparr>
     False 1
   = Some \<lparr>exit_code = 2, activated = None, stderr = [FailedToDiscoverWindows], grab_calls = 0\<rparr>
   \<and> main_winleap
     \<lparr>config_file = Some (''1=discord'' @ [CHR 0x0A]),
      display_opens = True,
      net_client_list = Some
        [\<lparr>client_id = 10, client_wm_class = None, client_name = Some ''a'',
           client_desktop = Some 0\<rparr>],
      net_current_desktop = Some 0, grab_answers = xgrab_busy, key_events = []\<rparr>
     False 1
   \<noteq> Some \<lparr>exit_code = 1, activated = None, stderr = [NoWindowsFound ''discord''],
             grab_calls = 0\<rparr>"
  by code_simp

end
